theory Spec2Isabelle
  imports Complex_Main "HOL-Library.Product_Lexorder"
begin

section \<open>Errors and outcomes\<close>

text \<open>
  A failed \<^verbatim>\<open>DRAKE_DEMAND\<close> aborts the call; the cache reports an unknown ticket; an
  unchecked \<^verbatim>\<open>std::vector\<close> access outside the vector and a dereferenced null or dangling
  pointer are undefined behaviour in C++ and are made explicit as errors of their own.
\<close>

datatype error = DemandFailed | UnknownTicket | OutOfRange | NullDereference

text \<open>
  The outcome of a \<^verbatim>\<open>void\<close> member function that mutates the object it is called on:
  the object after the call returned, or the error together with the object as it stood
  when the call was aborted.
\<close>

datatype 's outcome = Returned 's | Aborted error 's

section \<open>The store of cached values\<close>

text \<open>
  Modelled from the spec: the storage of the cached values (\<^verbatim>\<open>cache.h\<close> and \<^verbatim>\<open>value.h\<close>
  are not among the sources). Cached values are heap objects
  (\<^verbatim>\<open>std::unique_ptr<AbstractValue>\<close> in \<^verbatim>\<open>cache_test.cc\<close>); a borrow handed out by the
  cache is the address of such an object. The heap maps the addresses in use to their
  contents; \<open>brk\<close> is the next address the allocator hands out. Addresses are never
  reused.
\<close>

record 'v Heap =
  cells :: "nat \<Rightarrow> 'v option"
  brk :: nat

definition deref :: "'v Heap \<Rightarrow> nat \<Rightarrow> 'v option" where
  "deref h p = cells h p"

definition alloc :: "'v Heap \<Rightarrow> 'v option \<Rightarrow> 'v Heap" where
  "alloc h v = \<lparr>cells = (cells h)(brk h := v), brk = Suc (brk h)\<rparr>"

definition free :: "'v Heap \<Rightarrow> nat option \<Rightarrow> 'v Heap" where
  "free h p = (case p of None \<Rightarrow> h | Some a \<Rightarrow> h\<lparr>cells := (cells h)(a := None)\<rparr>)"

section \<open>Cache\<close>

text \<open>
  Modelled from the spec: the class \<^verbatim>\<open>Cache\<close> (\<^verbatim>\<open>cache.h\<close>, \<^verbatim>\<open>cache.cc\<close>) is not among the
  sources; only its test \<^verbatim>\<open>cache_test.cc\<close> is. A ticket is a dense index into the
  sequence of entries. An entry owns at most one value (the address of its heap object),
  carries its validity, and lists the tickets that named it as a prerequisite (the
  forward edges followed by invalidation).
\<close>

record CacheEntry =
  value_ptr :: "nat option"
  is_valid :: bool
  dependents :: "nat list"

type_synonym Cache = "CacheEntry list"

definition empty_entry :: CacheEntry where
  "empty_entry = \<lparr>value_ptr = None, is_valid = False, dependents = []\<rparr>"

definition add_dependent :: "nat \<Rightarrow> CacheEntry \<Rightarrow> CacheEntry" where
  "add_dependent t e = e\<lparr>dependents := List.insert t (dependents e)\<rparr>"

text \<open>
  Modelled from the spec: \<^verbatim>\<open>make_ticket(prereqs)\<close> allocates a fresh ticket, records its
  prerequisites by a reverse edge from each prerequisite to the new ticket, and fails with
  \<^verbatim>\<open>UnknownTicket\<close> if a prerequisite is unknown.
\<close>

definition MakeCacheTicket :: "Cache \<Rightarrow> nat list \<Rightarrow> error + (Cache \<times> nat)" where
  "MakeCacheTicket c prerequisites =
     (if list_all (\<lambda>p. p < length c) prerequisites
      then Inr (fold (\<lambda>p s. s[p := add_dependent (length c) (s ! p)]) prerequisites c
                  @ [empty_entry], length c)
      else Inl UnknownTicket)"

text \<open>
  Modelled from the spec: \<^verbatim>\<open>set(ticket, value)\<close> stores the value at the ticket,
  replaces (and so destroys) any previous value, marks the entry valid, and returns a
  borrow of the stored value. It does not invalidate dependents.
\<close>

definition Cache_Set :: "'v Heap \<Rightarrow> Cache \<Rightarrow> nat \<Rightarrow> 'v \<Rightarrow> error + ('v Heap \<times> Cache \<times> nat)" where
  "Cache_Set h c ticket v =
     (if ticket < length c
      then let h' = free h (value_ptr (c ! ticket)) in
           Inr (alloc h' (Some v),
                c[ticket := (c ! ticket)\<lparr>value_ptr := Some (brk h'), is_valid := True\<rparr>],
                brk h')
      else Inl UnknownTicket)"

text \<open>
  Modelled from the spec: \<^verbatim>\<open>swap(ticket, value)\<close> exchanges the stored value for the new
  one and returns the prior payload, now owned by the caller (so it stays allocated), or
  an absent marker. The entry becomes valid; dependents are not invalidated.
\<close>

definition Cache_Swap :: "'v Heap \<Rightarrow> Cache \<Rightarrow> nat \<Rightarrow> 'v \<Rightarrow> error + ('v Heap \<times> Cache \<times> nat option)" where
  "Cache_Swap h c ticket v =
     (if ticket < length c
      then Inr (alloc h (Some v),
                c[ticket := (c ! ticket)\<lparr>value_ptr := Some (brk h), is_valid := True\<rparr>],
                value_ptr (c ! ticket))
      else Inl UnknownTicket)"

text \<open>
  Modelled from the spec: \<^verbatim>\<open>get(ticket)\<close> returns a borrow of the stored value if the
  entry is valid, else absent. It never computes.
\<close>

definition Cache_Get :: "Cache \<Rightarrow> nat \<Rightarrow> error + nat option" where
  "Cache_Get c ticket =
     (if ticket < length c
      then Inr (if is_valid (c ! ticket) then value_ptr (c ! ticket) else None)
      else Inl UnknownTicket)"

text \<open>
  Modelled from the spec: \<^verbatim>\<open>invalidate(ticket)\<close> marks the ticket invalid and recursively
  marks every transitive dependent invalid, following forward edges, also through entries
  that are invalid already. The stored value is kept. A forward edge leads from a ticket
  to a later one (a new ticket may only name existing tickets as prerequisites), and only
  such edges, inside the \<open>n\<close> entries of the cache, are followed: in every cache that
  the operations build no other edge exists (\<open>forward_edges_all_followed\<close>,
  \<open>run_ops_forward_edges\<close>).
\<close>

function InvalidateRecursively :: "nat \<Rightarrow> Cache \<Rightarrow> nat \<Rightarrow> Cache" where
  "InvalidateRecursively n c t =
     fold (\<lambda>d c'. InvalidateRecursively n c' d)
          (filter (\<lambda>d. t < d \<and> d < n) (dependents (c ! t)))
          (c[t := (c ! t)\<lparr>is_valid := False\<rparr>])"
  by pat_completeness auto
termination
  by (relation "measure (\<lambda>(n, c, t). n - t)") auto

declare InvalidateRecursively.simps [simp del]

definition Cache_Invalidate :: "Cache \<Rightarrow> nat \<Rightarrow> error + Cache" where
  "Cache_Invalidate c ticket =
     (if ticket < length c then Inr (InvalidateRecursively (length c) c ticket)
      else Inl UnknownTicket)"

text \<open>
  Modelled from the spec: \<^verbatim>\<open>clone()\<close> is a deep copy: the same tickets, the same
  dependency topology, the same validity, and each stored value copied into a heap object
  of the clone's own.
\<close>

fun Cache_Clone :: "'v Heap \<Rightarrow> Cache \<Rightarrow> 'v Heap \<times> Cache" where
  "Cache_Clone h [] = (h, [])"
| "Cache_Clone h (e # es) =
     (case value_ptr e of
        None \<Rightarrow> (case Cache_Clone h es of (h', es') \<Rightarrow> (h', e # es'))
      | Some p \<Rightarrow>
          (case Cache_Clone (alloc h (cells h p)) es of
             (h', es') \<Rightarrow> (h', e\<lparr>value_ptr := Some (brk h)\<rparr> # es')))"

section \<open>Contexts\<close>

text \<open>
  \<^verbatim>\<open>std::map<K, V>\<close> as an association list in key order: \<open>map_assign\<close> is
  \<^verbatim>\<open>m[k] = v\<close> and \<open>map_push_back\<close> is \<^verbatim>\<open>m[k].push_back(v)\<close> (which creates the
  empty vector first when the key is new). A \<^verbatim>\<open>PortIdentifier\<close> is a
  \<^verbatim>\<open>std::pair<int, int>\<close>, ordered lexicographically.
\<close>

type_synonym SystemIndex = int
type_synonym PortIndex = int
type_synonym PortIdentifier = "int \<times> int"

fun map_assign :: "'k::linorder \<Rightarrow> 'a \<Rightarrow> ('k \<times> 'a) list \<Rightarrow> ('k \<times> 'a) list" where
  "map_assign k v [] = [(k, v)]"
| "map_assign k v ((k', v') # m) =
     (if k < k' then (k, v) # (k', v') # m
      else if k = k' then (k, v) # m
      else (k', v') # map_assign k v m)"

fun map_push_back :: "'k::linorder \<Rightarrow> 'a \<Rightarrow> ('k \<times> 'a list) list \<Rightarrow> ('k \<times> 'a list) list" where
  "map_push_back k v [] = [(k, [v])]"
| "map_push_back k v ((k', vs) # m) =
     (if k < k' then (k, [v]) # (k', vs) # m
      else if k = k' then (k, vs @ [v]) # m
      else (k', vs) # map_push_back k v m)"

text \<open>
  Modelled from the spec: the input ports (\<^verbatim>\<open>system_input.h\<close> is not among the sources),
  freestanding with a value of their own or dependent on an output slot. An
  \<^verbatim>\<open>OutputPort*\<close> is the address of a slot of an output set owned by a diagram context:
  the diagram (its own address), the subsystem and the port.
\<close>

datatype OutputPortPtr = OutputPortPtr (ptr_diagram: nat) (ptr_system: int) (ptr_port: int)

datatype 'v InputPort = FreestandingInputPort 'v | DependentInputPort OutputPortPtr

text \<open>
  Modelled from the spec: \<^verbatim>\<open>SystemOutput<T>\<close> (\<^verbatim>\<open>system_output.h\<close> is not among the
  sources), the ordered sequence of output slots of one subsystem.
\<close>

type_synonym 'v SystemOutput = "'v list"

definition get_num_ports :: "'v SystemOutput \<Rightarrow> int" where
  "get_num_ports out = int (length out)"

text \<open>
  Modelled from the spec: the members of \<^verbatim>\<open>Context<T>\<close> (\<^verbatim>\<open>context.h\<close> is not among the
  sources), namely the cache, the well-known tickets recorded by
  \<^verbatim>\<open>BuildCacheTickets\<close> (time, state, one per input port) and the back-reference
  (parent diagram, index) installed by \<^verbatim>\<open>set_parent_and_index\<close>. With them the data
  every context has: the time of \<^verbatim>\<open>StepInfo\<close> (\<^verbatim>\<open>context_base.h\<close>).
\<close>

record 't ContextData =
  time_sec :: 't
  cache :: Cache
  time_ticket :: nat
  state_ticket :: nat
  input_tickets :: "nat list"
  parent :: "(nat \<times> int) option"

text \<open>
  The members of \<^verbatim>\<open>DiagramContext<T>\<close> other than the child contexts; \<open>this_ptr\<close> is the
  address of the diagram context itself (\<^verbatim>\<open>this\<close>).
\<close>

record 'v DiagramData =
  this_ptr :: nat
  input_ids :: "PortIdentifier list"
  output_ids :: "PortIdentifier list"
  outputs :: "'v SystemOutput option list"
  dependency_graph :: "(PortIdentifier \<times> PortIdentifier) list"
  inverse_dependency_graph :: "(PortIdentifier \<times> PortIdentifier list) list"

text \<open>
  A context is a leaf context, with its input ports (a null entry is a disconnected
  port), or a diagram context, with its child contexts (\<^verbatim>\<open>contexts_\<close>; a null entry is a
  subsystem not yet added). A child of a diagram context may be a diagram context itself.
\<close>

datatype ('t, 'v) Context =
    LeafContext "'t ContextData" "'v InputPort option list"
  | DiagramContext "'t ContextData" "'v DiagramData" "('t, 'v) Context option list"

fun data :: "('t, 'v) Context \<Rightarrow> 't ContextData" where
  "data (LeafContext b ins) = b"
| "data (DiagramContext b f cs) = b"

text \<open>\<^verbatim>\<open>ContextBase::get_time\<close>.\<close>

definition get_time :: "('t, 'v) Context \<Rightarrow> 't" where
  "get_time c = time_sec (data c)"

text \<open>
  Modelled from the spec: \<^verbatim>\<open>BuildCacheTickets\<close> allocates the well-known tickets (time,
  state, and one per input port), none of which has a prerequisite, and records them.
\<close>

definition BuildCacheTickets :: "nat \<Rightarrow> 't ContextData \<Rightarrow> 't ContextData" where
  "BuildCacheTickets num_inputs b =
     b\<lparr>cache := cache b @ replicate (2 + num_inputs) empty_entry,
       time_ticket := length (cache b),
       state_ticket := Suc (length (cache b)),
       input_tickets := map (\<lambda>i. length (cache b) + 2 + i) [0..<num_inputs]\<rparr>"

text \<open>
  Modelled from the spec: \<^verbatim>\<open>InvalidateTime\<close> and \<^verbatim>\<open>InvalidateInputPort\<close> are pure
  virtual in \<^verbatim>\<open>context_base.h\<close>; they invalidate the cache tickets registered as
  depending on the time and on the input port.
\<close>

definition InvalidateTime :: "'t ContextData \<Rightarrow> error + 't ContextData" where
  "InvalidateTime b =
     (case Cache_Invalidate (cache b) (time_ticket b) of
        Inl e \<Rightarrow> Inl e
      | Inr c' \<Rightarrow> Inr (b\<lparr>cache := c'\<rparr>))"

definition InvalidateInputPort :: "'t ContextData \<Rightarrow> int \<Rightarrow> error + 't ContextData" where
  "InvalidateInputPort b index =
     (if 0 \<le> index \<and> index < int (length (input_tickets b))
      then (case Cache_Invalidate (cache b) (input_tickets b ! nat index) of
              Inl e \<Rightarrow> Inl e
            | Inr c' \<Rightarrow> Inr (b\<lparr>cache := c'\<rparr>))
      else Inl OutOfRange)"

text \<open>
  \<^verbatim>\<open>ContextBase::set_time\<close>: \<^verbatim>\<open>InvalidateTime(); get_mutable_step_info()->time_sec =
  time_sec;\<close>
\<close>

definition ContextBase_set_time :: "'t \<Rightarrow> 't ContextData \<Rightarrow> error + 't ContextData" where
  "ContextBase_set_time t b =
     (case InvalidateTime b of
        Inl e \<Rightarrow> Inl e
      | Inr b' \<Rightarrow> Inr (b'\<lparr>time_sec := t\<rparr>))"

text \<open>
  \<^verbatim>\<open>set_time\<close> is virtual. A leaf context sets its own time; \<^verbatim>\<open>DiagramContext::set_time\<close>
  sets its own time and then the time of every child context that is not null, in index
  order.
\<close>

fun set_time :: "'t \<Rightarrow> ('t, 'v) Context \<Rightarrow> error + ('t, 'v) Context"
  and set_time_subcontexts ::
    "'t \<Rightarrow> ('t, 'v) Context option list \<Rightarrow> error + ('t, 'v) Context option list" where
  "set_time t (LeafContext b ins) =
     (case ContextBase_set_time t b of
        Inl e \<Rightarrow> Inl e
      | Inr b' \<Rightarrow> Inr (LeafContext b' ins))"
| "set_time t (DiagramContext b f cs) =
     (case ContextBase_set_time t b of
        Inl e \<Rightarrow> Inl e
      | Inr b' \<Rightarrow>
          (case set_time_subcontexts t cs of
             Inl e \<Rightarrow> Inl e
           | Inr cs' \<Rightarrow> Inr (DiagramContext b' f cs')))"
| "set_time_subcontexts t [] = Inr []"
| "set_time_subcontexts t (None # cs) =
     (case set_time_subcontexts t cs of
        Inl e \<Rightarrow> Inl e
      | Inr cs' \<Rightarrow> Inr (None # cs'))"
| "set_time_subcontexts t (Some subcontext # cs) =
     (case set_time t subcontext of
        Inl e \<Rightarrow> Inl e
      | Inr subcontext' \<Rightarrow>
          (case set_time_subcontexts t cs of
             Inl e \<Rightarrow> Inl e
           | Inr cs' \<Rightarrow> Inr (Some subcontext' # cs')))"

text \<open>
  Modelled from the spec: \<^verbatim>\<open>set_parent_and_index\<close> records the back-pointer from a child
  to (its diagram, its index).
\<close>

fun set_parent_and_index :: "('t, 'v) Context \<Rightarrow> nat \<Rightarrow> int \<Rightarrow> ('t, 'v) Context" where
  "set_parent_and_index (LeafContext b ins) p index = LeafContext (b\<lparr>parent := Some (p, index)\<rparr>) ins"
| "set_parent_and_index (DiagramContext b f cs) p index =
     DiagramContext (b\<lparr>parent := Some (p, index)\<rparr>) f cs"

text \<open>
  \<^verbatim>\<open>get_num_input_ports\<close> is virtual: the number of input ports of a leaf context, the
  size of \<^verbatim>\<open>input_ids_\<close> for a diagram context; \<^verbatim>\<open>get_num_output_ports\<close> of a diagram
  context is the size of \<^verbatim>\<open>output_ids_\<close>.
\<close>

fun get_num_input_ports :: "('t, 'v) Context \<Rightarrow> int" where
  "get_num_input_ports (LeafContext b ins) = int (length ins)"
| "get_num_input_ports (DiagramContext b f cs) = int (length (input_ids f))"

fun get_num_output_ports :: "('t, 'v) Context \<Rightarrow> int" where
  "get_num_output_ports (DiagramContext b f cs) = int (length (output_ids f))"

fun num_subsystems :: "('t, 'v) Context \<Rightarrow> int" where
  "num_subsystems (DiagramContext b f cs) = int (length cs)"

section \<open>DiagramContext\<close>

text \<open>
  The constructor \<^verbatim>\<open>DiagramContext(num_subsystems)\<close>: \<^verbatim>\<open>outputs_\<close> and \<^verbatim>\<open>contexts_\<close>
  hold \<^verbatim>\<open>num_subsystems\<close> null pointers, the other members are empty, the time is
  value-initialised (\<^verbatim>\<open>T time_sec{}\<close>) and \<^verbatim>\<open>BuildCacheTickets\<close> is called. \<open>this\<close> is
  the address of the new object.
\<close>

definition DiagramContext_init :: "nat \<Rightarrow> nat \<Rightarrow> ('t::zero, 'v) Context" where
  "DiagramContext_init this n =
     DiagramContext
       (BuildCacheTickets 0
          \<lparr>time_sec = 0, cache = [], time_ticket = 0, state_ticket = 0,
           input_tickets = [], parent = None\<rparr>)
       \<lparr>this_ptr = this, input_ids = [], output_ids = [],
        outputs = replicate n None, dependency_graph = [],
        inverse_dependency_graph = []\<rparr>
       (replicate n None)"

text \<open>
  \<^verbatim>\<open>GetSubsystemOutput\<close>, \<^verbatim>\<open>GetSubsystemContext\<close> and \<^verbatim>\<open>GetMutableSubsystemContext\<close>:
  two \<^verbatim>\<open>DRAKE_DEMAND\<close>s, the index in \<open>[0, num_subsystems())\<close> and the pointer not null.
  \<^verbatim>\<open>num_subsystems()\<close> is the size of \<^verbatim>\<open>contexts_\<close>; that \<^verbatim>\<open>outputs_\<close> has the same
  size is only a debug assertion, so the access to \<^verbatim>\<open>outputs_\<close> is written out.
\<close>

fun GetSubsystemOutput :: "('t, 'v) Context \<Rightarrow> int \<Rightarrow> error + 'v SystemOutput" where
  "GetSubsystemOutput (DiagramContext b f cs) index =
     (if \<not> (index \<ge> 0 \<and> index < num_subsystems (DiagramContext b f cs)) then Inl DemandFailed
      else if \<not> nat index < length (outputs f) then Inl OutOfRange
      else (case outputs f ! nat index of
              None \<Rightarrow> Inl DemandFailed
            | Some out \<Rightarrow> Inr out))"

fun GetSubsystemContext :: "('t, 'v) Context \<Rightarrow> int \<Rightarrow> error + ('t, 'v) Context" where
  "GetSubsystemContext (DiagramContext b f cs) index =
     (if \<not> (index \<ge> 0 \<and> index < num_subsystems (DiagramContext b f cs)) then Inl DemandFailed
      else (case cs ! nat index of
              None \<Rightarrow> Inl DemandFailed
            | Some c \<Rightarrow> Inr c))"

definition GetMutableSubsystemContext :: "('t, 'v) Context \<Rightarrow> int \<Rightarrow> error + ('t, 'v) Context" where
  "GetMutableSubsystemContext d index = GetSubsystemContext d index"

lemma GetSubsystemContext_size:
  assumes "GetSubsystemContext (DiagramContext b f cs) index = Inr c"
  shows "size c < size (DiagramContext b f cs)"
proof -
  from assms have "Some c \<in> set cs"
    by (auto split: if_splits option.splits simp: in_set_conv_nth intro!: exI[of _ "nat index"])
  then have "size_option size (Some c) \<le> size_list (size_option size) cs"
    by (rule size_list_estimation') simp
  then show ?thesis by simp
qed

text \<open>
  Modelled from the spec: \<^verbatim>\<open>SetInputPort\<close> of a leaf context (\<^verbatim>\<open>context.h\<close> is not
  among the sources) replaces input \<open>index\<close> and invalidates every ticket registered
  as depending on that input; a port index outside the declared range is a precondition
  violation. For a diagram context it is \<^verbatim>\<open>DiagramContext::DoSetInputPort\<close> of the source:
  \<^verbatim>\<open>input_ids_[index]\<close> is read without a check and the port is handed to the subsystem
  the exported input belongs to.
\<close>

function SetInputPort ::
    "('t, 'v) Context \<Rightarrow> int \<Rightarrow> 'v InputPort \<Rightarrow> error + ('t, 'v) Context" where
  "SetInputPort (LeafContext b ins) index new_port =
     (if \<not> (0 \<le> index \<and> index < int (length ins)) then Inl DemandFailed
      else (case InvalidateInputPort b index of
              Inl e \<Rightarrow> Inl e
            | Inr b' \<Rightarrow> Inr (LeafContext b' (ins[nat index := Some new_port]))))"
| "SetInputPort (DiagramContext b f cs) index new_port =
     (if \<not> (0 \<le> index \<and> index < int (length (input_ids f))) then Inl OutOfRange
      else (case input_ids f ! nat index of (system_index, port_index) \<Rightarrow>
        (case GetSubsystemContext (DiagramContext b f cs) system_index of
           Inl e \<Rightarrow> Inl e
         | Inr subcontext \<Rightarrow>
             (case SetInputPort subcontext port_index new_port of
                Inl e \<Rightarrow> Inl e
              | Inr subcontext' \<Rightarrow>
                  Inr (DiagramContext b f (cs[nat system_index := Some subcontext']))))))"
  by pat_completeness auto
termination
proof (relation "measure (\<lambda>(c, i, p). size c)")
  show "wf (measure (\<lambda>(c, i, p). size c))" by simp
next
  fix b :: "'t ContextData" and f :: "'v DiagramData" and cs :: "('t, 'v) Context option list"
    and index :: int and new_port :: "'v InputPort" and x :: "int \<times> int"
    and system_index port_index :: int and subcontext :: "('t, 'v) Context"
  assume "GetSubsystemContext (DiagramContext b f cs) system_index = Inr subcontext"
  then have "size subcontext < size (DiagramContext b f cs)"
    by (rule GetSubsystemContext_size)
  then show "((subcontext, port_index, new_port), DiagramContext b f cs, index, new_port)
               \<in> measure (\<lambda>(c, i, p). size c)"
    by simp
qed

text \<open>
  \<^verbatim>\<open>AddSystem\<close>: three \<^verbatim>\<open>DRAKE_DEMAND\<close>s (the index in range, \<^verbatim>\<open>contexts_[index]\<close> null,
  \<^verbatim>\<open>outputs_[index]\<close> null), then the back-pointer is set in the child and the diagram
  context takes ownership of the child context and of its output set.
\<close>

fun AddSystem ::
    "('t, 'v) Context \<Rightarrow> int \<Rightarrow> ('t, 'v) Context \<Rightarrow> 'v SystemOutput \<Rightarrow> ('t, 'v) Context outcome" where
  "AddSystem (DiagramContext b f cs) index child_context output =
     (if \<not> (index \<ge> 0 \<and> index < num_subsystems (DiagramContext b f cs))
      then Aborted DemandFailed (DiagramContext b f cs)
      else if \<not> (cs ! nat index = None)
      then Aborted DemandFailed (DiagramContext b f cs)
      else if \<not> nat index < length (outputs f)
      then Aborted OutOfRange (DiagramContext b f cs)
      else if \<not> (outputs f ! nat index = None)
      then Aborted DemandFailed (DiagramContext b f cs)
      else Returned
             (DiagramContext b
                (f\<lparr>outputs := (outputs f)[nat index := Some output]\<rparr>)
                (cs[nat index := Some (set_parent_and_index child_context (this_ptr f) index)])))"

text \<open>
  \<^verbatim>\<open>ExportInput\<close> and \<^verbatim>\<open>ExportOutput\<close>: one \<^verbatim>\<open>DRAKE_DEMAND\<close>, that
  \<^verbatim>\<open>contexts_[id.first]\<close> is not null (an access to \<^verbatim>\<open>contexts_\<close> that is itself not
  range-checked), then the identifier is appended.
\<close>

fun ExportInput :: "('t, 'v) Context \<Rightarrow> PortIdentifier \<Rightarrow> ('t, 'v) Context outcome" where
  "ExportInput (DiagramContext b f cs) port_id =
     (let system_index = fst port_id in
      if \<not> (0 \<le> system_index \<and> nat system_index < length cs)
      then Aborted OutOfRange (DiagramContext b f cs)
      else if \<not> (cs ! nat system_index \<noteq> None)
      then Aborted DemandFailed (DiagramContext b f cs)
      else Returned (DiagramContext b (f\<lparr>input_ids := input_ids f @ [port_id]\<rparr>) cs))"

fun ExportOutput :: "('t, 'v) Context \<Rightarrow> PortIdentifier \<Rightarrow> ('t, 'v) Context outcome" where
  "ExportOutput (DiagramContext b f cs) port_id =
     (let system_index = fst port_id in
      if \<not> (0 \<le> system_index \<and> nat system_index < length cs)
      then Aborted OutOfRange (DiagramContext b f cs)
      else if \<not> (cs ! nat system_index \<noteq> None)
      then Aborted DemandFailed (DiagramContext b f cs)
      else Returned (DiagramContext b (f\<lparr>output_ids := output_ids f @ [port_id]\<rparr>) cs))"

text \<open>
  \<^verbatim>\<open>Connect(src, dest)\<close>: the source output set is fetched and the source port index
  checked against its number of ports; the destination context is fetched and the
  destination port index checked against its number of input ports; a
  \<^verbatim>\<open>DependentInputPort\<close> on the source slot is installed at the destination; then
  \<^verbatim>\<open>dependency_graph_[dest] = src\<close> and \<^verbatim>\<open>inverse_dependency_graph_[src].push_back(dest)\<close>.
\<close>

fun Connect ::
    "('t, 'v) Context \<Rightarrow> PortIdentifier \<Rightarrow> PortIdentifier \<Rightarrow> ('t, 'v) Context outcome" where
  "Connect (DiagramContext b f cs) src dest =
     (let d = DiagramContext b f cs;
          src_system_index = fst src; src_port_index = snd src;
          dest_system_index = fst dest; dest_port_index = snd dest in
      case GetSubsystemOutput d src_system_index of
        Inl e \<Rightarrow> Aborted e d
      | Inr src_ports \<Rightarrow>
          if \<not> (src_port_index \<ge> 0) then Aborted DemandFailed d
          else if \<not> (src_port_index < get_num_ports src_ports) then Aborted DemandFailed d
          else
            (case GetMutableSubsystemContext d dest_system_index of
               Inl e \<Rightarrow> Aborted e d
             | Inr dest_context \<Rightarrow>
                 if \<not> (dest_port_index \<ge> 0) then Aborted DemandFailed d
                 else if \<not> (dest_port_index < get_num_input_ports dest_context)
                 then Aborted DemandFailed d
                 else
                   (case SetInputPort dest_context dest_port_index
                           (DependentInputPort
                              (OutputPortPtr (this_ptr f) src_system_index src_port_index)) of
                      Inl e \<Rightarrow> Aborted e d
                    | Inr dest_context' \<Rightarrow>
                        Returned
                          (DiagramContext b
                             (f\<lparr>dependency_graph := map_assign dest src (dependency_graph f),
                                inverse_dependency_graph :=
                                  map_push_back src dest (inverse_dependency_graph f)\<rparr>)
                             (cs[nat dest_system_index := Some dest_context'])))))"

text \<open>
  \<^verbatim>\<open>MakeState\<close> wraps the states of the children into views that do not own them; the
  states are not part of this model. It dereferences every pointer of \<^verbatim>\<open>contexts_\<close>.
\<close>

fun MakeState :: "('t, 'v) Context \<Rightarrow> ('t, 'v) Context outcome" where
  "MakeState (DiagramContext b f cs) =
     (if list_all (\<lambda>c. c \<noteq> None) cs then Returned (DiagramContext b f cs)
      else Aborted NullDereference (DiagramContext b f cs))"

text \<open>
  \<^verbatim>\<open>PropagateInvalidOutputs(system_index, port_index)\<close>: a \<^verbatim>\<open>const\<close> member function
  whose body is empty but for the comment \<^verbatim>\<open>TODO(david-german-tri): What goes here??\<close>.
\<close>

fun PropagateInvalidOutputs :: "('t, 'v) Context \<Rightarrow> int \<Rightarrow> int \<Rightarrow> ('t, 'v) Context" where
  "PropagateInvalidOutputs (DiagramContext b f cs) system_index port_index =
     DiagramContext b f cs"

text \<open>
  Modelled from the spec: the clone of a leaf context (\<^verbatim>\<open>context.h\<close> is not among the
  sources) is a deep clone whose dependent input ports are converted to freestanding
  snapshots of the value that currently appears on them; \<open>env\<close> reads the output slot a
  pointer refers to. \<^verbatim>\<open>SystemOutput::Clone\<close> copies the slots.
\<close>

fun snapshot :: "(OutputPortPtr \<Rightarrow> 'v option) \<Rightarrow> 'v InputPort option \<Rightarrow> error + 'v InputPort option" where
  "snapshot env None = Inr None"
| "snapshot env (Some (FreestandingInputPort v)) = Inr (Some (FreestandingInputPort v))"
| "snapshot env (Some (DependentInputPort p)) =
     (case env p of
        None \<Rightarrow> Inl NullDereference
      | Some v \<Rightarrow> Inr (Some (FreestandingInputPort v)))"

fun snapshot_all ::
    "(OutputPortPtr \<Rightarrow> 'v option) \<Rightarrow> 'v InputPort option list \<Rightarrow> error + 'v InputPort option list" where
  "snapshot_all env [] = Inr []"
| "snapshot_all env (p # ps) =
     (case snapshot env p of
        Inl e \<Rightarrow> Inl e
      | Inr p' \<Rightarrow>
          (case snapshot_all env ps of
             Inl e \<Rightarrow> Inl e
           | Inr ps' \<Rightarrow> Inr (p' # ps')))"

text \<open>The output slots owned by a diagram context, on top of those of its surroundings.\<close>

definition output_slots ::
    "'v DiagramData \<Rightarrow> (OutputPortPtr \<Rightarrow> 'v option) \<Rightarrow> OutputPortPtr \<Rightarrow> 'v option" where
  "output_slots f env p =
     (if ptr_diagram p = this_ptr f
      then (if 0 \<le> ptr_system p \<and> nat (ptr_system p) < length (outputs f)
            then (case outputs f ! nat (ptr_system p) of
                    None \<Rightarrow> None
                  | Some out \<Rightarrow>
                      if 0 \<le> ptr_port p \<and> nat (ptr_port p) < length out
                      then Some (out ! nat (ptr_port p)) else None)
            else None)
      else env p)"

text \<open>The two replay loops of \<^verbatim>\<open>DoClone\<close>, over \<^verbatim>\<open>dependency_graph_\<close> and \<^verbatim>\<open>input_ids_\<close>.\<close>

fun ConnectAll ::
    "('t, 'v) Context \<Rightarrow> (PortIdentifier \<times> PortIdentifier) list \<Rightarrow> ('t, 'v) Context outcome" where
  "ConnectAll clone [] = Returned clone"
| "ConnectAll clone (connection # rest) =
     (let src = snd connection; dest = fst connection in
      case Connect clone src dest of
        Aborted e s \<Rightarrow> Aborted e s
      | Returned clone' \<Rightarrow> ConnectAll clone' rest)"

fun ExportInputs :: "('t, 'v) Context \<Rightarrow> PortIdentifier list \<Rightarrow> ('t, 'v) Context outcome" where
  "ExportInputs clone [] = Returned clone"
| "ExportInputs clone (port_id # rest) =
     (case ExportInput clone port_id of
        Aborted e s \<Rightarrow> Aborted e s
      | Returned clone' \<Rightarrow> ExportInputs clone' rest)"

text \<open>
  \<^verbatim>\<open>Clone\<close> is virtual. For a diagram context it is \<^verbatim>\<open>DiagramContext::DoClone\<close>: a new
  diagram context of the same size; for each index in order, the \<^verbatim>\<open>DRAKE_DEMAND\<close>s that
  context and output set are not null and \<^verbatim>\<open>AddSystem\<close> of their clones
  (\<open>CloneSubsystems\<close>); \<^verbatim>\<open>MakeState\<close>; \<^verbatim>\<open>Connect\<close> for every entry of
  \<^verbatim>\<open>dependency_graph_\<close>; \<^verbatim>\<open>ExportInput\<close> for every entry of \<^verbatim>\<open>input_ids_\<close>. The heap is
  threaded through: the cloned caches own new value objects, and the clone itself is a
  new object.
\<close>

fun Clone ::
    "(OutputPortPtr \<Rightarrow> 'v option) \<Rightarrow> 'v Heap \<Rightarrow> ('t::zero, 'v) Context
       \<Rightarrow> error + ('v Heap \<times> ('t, 'v) Context)"
  and CloneSubsystems ::
    "(OutputPortPtr \<Rightarrow> 'v option) \<Rightarrow> 'v DiagramData \<Rightarrow> 'v Heap \<Rightarrow> ('t, 'v) Context \<Rightarrow> int
       \<Rightarrow> ('t, 'v) Context option list \<Rightarrow> error + ('v Heap \<times> ('t, 'v) Context)" where
  "Clone env h (LeafContext b ins) =
     (case snapshot_all env ins of
        Inl e \<Rightarrow> Inl e
      | Inr ins' \<Rightarrow>
          (case Cache_Clone h (cache b) of
             (h', cache') \<Rightarrow> Inr (h', LeafContext (b\<lparr>cache := cache'\<rparr>) ins')))"
| "Clone env h (DiagramContext b f cs) =
     (case CloneSubsystems (output_slots f env) f (alloc h None)
             (DiagramContext_init (brk h) (length cs)) 0 cs of
        Inl e \<Rightarrow> Inl e
      | Inr (h1, clone1) \<Rightarrow>
          (case MakeState clone1 of
             Aborted e s \<Rightarrow> Inl e
           | Returned clone2 \<Rightarrow>
               (case ConnectAll clone2 (dependency_graph f) of
                  Aborted e s \<Rightarrow> Inl e
                | Returned clone3 \<Rightarrow>
                    (case ExportInputs clone3 (input_ids f) of
                       Aborted e s \<Rightarrow> Inl e
                     | Returned clone4 \<Rightarrow> Inr (h1, clone4)))))"
| "CloneSubsystems env f h clone i [] = Inr (h, clone)"
| "CloneSubsystems env f h clone i (None # rest) = Inl DemandFailed"
| "CloneSubsystems env f h clone i (Some child_context # rest) =
     (if \<not> nat i < length (outputs f) then Inl OutOfRange
      else (case outputs f ! nat i of
              None \<Rightarrow> Inl DemandFailed
            | Some output \<Rightarrow>
                (case Clone env h child_context of
                   Inl e \<Rightarrow> Inl e
                 | Inr (h', child_context') \<Rightarrow>
                     (case AddSystem clone i child_context' output of
                        Aborted e s \<Rightarrow> Inl e
                      | Returned clone' \<Rightarrow> CloneSubsystems env f h' clone' (i + 1) rest))))"

section \<open>Observations and fixtures\<close>

fun diagram :: "('t, 'v) Context \<Rightarrow> 'v DiagramData" where
  "diagram (DiagramContext b f cs) = f"

text \<open>The source recorded for a destination input, and the consumers recorded for a source output.\<close>

definition source_of :: "'v DiagramData \<Rightarrow> PortIdentifier \<Rightarrow> PortIdentifier option" where
  "source_of f dest = map_of (dependency_graph f) dest"

definition consumers_of :: "'v DiagramData \<Rightarrow> PortIdentifier \<Rightarrow> PortIdentifier list" where
  "consumers_of f src =
     (case map_of (inverse_dependency_graph f) src of None \<Rightarrow> [] | Some dests \<Rightarrow> dests)"

text \<open>
  The two graphs are exact transposes of each other: every recorded wire appears in the
  consumer list of its source, and every consumer listed for a source is recorded as
  wired to that source.
\<close>

definition is_transpose :: "'v DiagramData \<Rightarrow> bool" where
  "is_transpose f =
     (list_all (\<lambda>(dest, src). dest \<in> set (consumers_of f src)) (dependency_graph f) \<and>
      list_all (\<lambda>(src, dests). list_all (\<lambda>dest. source_of f dest = Some src) dests)
        (inverse_dependency_graph f))"

text \<open>Every context of the tree has its time ticket in its cache.\<close>

fun time_ticket_known :: "('t, 'v) Context \<Rightarrow> bool"
  and time_tickets_known :: "('t, 'v) Context option list \<Rightarrow> bool" where
  "time_ticket_known (LeafContext b ins) = (time_ticket b < length (cache b))"
| "time_ticket_known (DiagramContext b f cs) =
     (time_ticket b < length (cache b) \<and> time_tickets_known cs)"
| "time_tickets_known [] = True"
| "time_tickets_known (None # cs) = time_tickets_known cs"
| "time_tickets_known (Some c # cs) = (time_ticket_known c \<and> time_tickets_known cs)"

text \<open>Every context of the tree reports the time \<open>t\<close>.\<close>

fun reports_time :: "'t \<Rightarrow> ('t, 'v) Context \<Rightarrow> bool"
  and report_time :: "'t \<Rightarrow> ('t, 'v) Context option list \<Rightarrow> bool" where
  "reports_time t (LeafContext b ins) = (time_sec b = t)"
| "reports_time t (DiagramContext b f cs) = (time_sec b = t \<and> report_time t cs)"
| "report_time t [] = True"
| "report_time t (None # cs) = report_time t cs"
| "report_time t (Some c # cs) = (reports_time t c \<and> report_time t cs)"

text \<open>The loop of \<open>InvalidateRecursively\<close> over the dependents, by name.\<close>

definition InvalidateEach :: "nat \<Rightarrow> nat list \<Rightarrow> Cache \<Rightarrow> Cache" where
  "InvalidateEach n ds c = fold (\<lambda>d c'. InvalidateRecursively n c' d) ds c"

text \<open>
  Modelled from the spec: a leaf context as its system allocates it, with \<open>num_inputs\<close>
  disconnected input ports and the well-known tickets built.
\<close>

definition LeafContext_init :: "nat \<Rightarrow> ('t::zero, 'v) Context" where
  "LeafContext_init num_inputs =
     LeafContext
       (BuildCacheTickets num_inputs
          \<lparr>time_sec = 0, cache = [], time_ticket = 0, state_ticket = 0,
           input_tickets = [], parent = None\<rparr>)
       (replicate num_inputs None)"

text \<open>
  A leaf context with one input port and one further ticket, 3, that names the ticket of
  input port 0 (ticket 2) as its prerequisite.
\<close>

definition example_leaf :: "(real, int) Context" where
  "example_leaf =
     LeafContext
       \<lparr>time_sec = 0,
        cache = [empty_entry, empty_entry, empty_entry\<lparr>dependents := [3]\<rparr>, empty_entry],
        time_ticket = 0, state_ticket = 1, input_tickets = [2], parent = None\<rparr>
       [None]"

text \<open>
  A diagram context at address 100 with two subsystems installed: subsystem 0 with one
  input port and two output ports, subsystem 1 (\<open>example_leaf\<close>) with one input port and
  one output port.
\<close>

definition example_diagram :: "(real, int) Context" where
  "example_diagram =
     DiagramContext
       \<lparr>time_sec = 0, cache = [empty_entry, empty_entry], time_ticket = 0, state_ticket = 1,
        input_tickets = [], parent = None\<rparr>
       \<lparr>this_ptr = 100, input_ids = [], output_ids = [],
        outputs = [Some [7, 8], Some [9]], dependency_graph = [],
        inverse_dependency_graph = []\<rparr>
       [Some (LeafContext
          \<lparr>time_sec = 0, cache = [empty_entry, empty_entry, empty_entry], time_ticket = 0,
           state_ticket = 1, input_tickets = [2], parent = Some (100, 0)\<rparr> [None]),
        Some (LeafContext
          \<lparr>time_sec = 0,
           cache = [empty_entry, empty_entry, empty_entry\<lparr>dependents := [3]\<rparr>, empty_entry],
           time_ticket = 0, state_ticket = 1, input_tickets = [2], parent = Some (100, 1)\<rparr>
          [None])]"

text \<open>\<open>example_diagram\<close> after \<^verbatim>\<open>Connect((0, 0), (1, 0))\<close>, and then after \<^verbatim>\<open>Connect((0, 1), (1, 0))\<close>.\<close>

definition example_wired :: "(real, int) Context" where
  "example_wired =
     DiagramContext
       \<lparr>time_sec = 0, cache = [empty_entry, empty_entry], time_ticket = 0, state_ticket = 1,
        input_tickets = [], parent = None\<rparr>
       \<lparr>this_ptr = 100, input_ids = [], output_ids = [],
        outputs = [Some [7, 8], Some [9]], dependency_graph = [((1, 0), (0, 0))],
        inverse_dependency_graph = [((0, 0), [(1, 0)])]\<rparr>
       [Some (LeafContext
          \<lparr>time_sec = 0, cache = [empty_entry, empty_entry, empty_entry], time_ticket = 0,
           state_ticket = 1, input_tickets = [2], parent = Some (100, 0)\<rparr> [None]),
        Some (LeafContext
          \<lparr>time_sec = 0,
           cache = [empty_entry, empty_entry, empty_entry\<lparr>dependents := [3]\<rparr>, empty_entry],
           time_ticket = 0, state_ticket = 1, input_tickets = [2], parent = Some (100, 1)\<rparr>
          [Some (DependentInputPort (OutputPortPtr 100 0 0))])]"

definition example_rewired :: "(real, int) Context" where
  "example_rewired =
     DiagramContext
       \<lparr>time_sec = 0, cache = [empty_entry, empty_entry], time_ticket = 0, state_ticket = 1,
        input_tickets = [], parent = None\<rparr>
       \<lparr>this_ptr = 100, input_ids = [], output_ids = [],
        outputs = [Some [7, 8], Some [9]], dependency_graph = [((1, 0), (0, 1))],
        inverse_dependency_graph = [((0, 0), [(1, 0)]), ((0, 1), [(1, 0)])]\<rparr>
       [Some (LeafContext
          \<lparr>time_sec = 0, cache = [empty_entry, empty_entry, empty_entry], time_ticket = 0,
           state_ticket = 1, input_tickets = [2], parent = Some (100, 0)\<rparr> [None]),
        Some (LeafContext
          \<lparr>time_sec = 0,
           cache = [empty_entry, empty_entry, empty_entry\<lparr>dependents := [3]\<rparr>, empty_entry],
           time_ticket = 0, state_ticket = 1, input_tickets = [2], parent = Some (100, 1)\<rparr>
          [Some (DependentInputPort (OutputPortPtr 100 0 1))])]"

text \<open>
  A diagram context at address 200 with three subsystems installed, the third a diagram
  context itself.
\<close>

definition example_three :: "(real, int) Context" where
  "example_three =
     DiagramContext
       \<lparr>time_sec = 0, cache = [empty_entry, empty_entry], time_ticket = 0, state_ticket = 1,
        input_tickets = [], parent = None\<rparr>
       \<lparr>this_ptr = 200, input_ids = [], output_ids = [],
        outputs = [Some [], Some [1], Some []], dependency_graph = [],
        inverse_dependency_graph = []\<rparr>
       [Some (set_parent_and_index (LeafContext_init 0) 200 0),
        Some (set_parent_and_index example_leaf 200 1),
        Some (set_parent_and_index example_diagram 200 2)]"

section \<open>Reading through a borrow, and sequences of cache operations\<close>

text \<open>
  What a caller sees at a ticket: \<^verbatim>\<open>get\<close>, and the borrow it returns dereferenced. A
  borrow whose object is gone is an error of its own.
\<close>

definition read_ticket :: "'v Heap \<Rightarrow> Cache \<Rightarrow> nat \<Rightarrow> error + 'v option" where
  "read_ticket h c ticket =
     (case Cache_Get c ticket of
        Inl e \<Rightarrow> Inl e
      | Inr None \<Rightarrow> Inr None
      | Inr (Some p) \<Rightarrow>
          (case deref h p of None \<Rightarrow> Inl NullDereference | Some v \<Rightarrow> Inr (Some v)))"

datatype 'v cache_op =
    MakeTicket "nat list"
  | SetValue nat 'v
  | SwapValue nat 'v
  | GetValue nat
  | Invalidate nat

fun apply_op :: "'v cache_op \<Rightarrow> 'v Heap \<times> Cache \<Rightarrow> error + ('v Heap \<times> Cache)" where
  "apply_op (MakeTicket prerequisites) (h, c) =
     (case MakeCacheTicket c prerequisites of
        Inl e \<Rightarrow> Inl e
      | Inr (c', t) \<Rightarrow> Inr (h, c'))"
| "apply_op (SetValue t v) (h, c) =
     (case Cache_Set h c t v of
        Inl e \<Rightarrow> Inl e
      | Inr (h', c', p) \<Rightarrow> Inr (h', c'))"
| "apply_op (SwapValue t v) (h, c) =
     (case Cache_Swap h c t v of
        Inl e \<Rightarrow> Inl e
      | Inr (h', c', old) \<Rightarrow> Inr (h', c'))"
| "apply_op (GetValue t) (h, c) =
     (case Cache_Get c t of
        Inl e \<Rightarrow> Inl e
      | Inr p \<Rightarrow> Inr (h, c))"
| "apply_op (Invalidate t) (h, c) =
     (case Cache_Invalidate c t of
        Inl e \<Rightarrow> Inl e
      | Inr c' \<Rightarrow> Inr (h, c'))"

fun run_ops :: "'v cache_op list \<Rightarrow> 'v Heap \<times> Cache \<Rightarrow> error + ('v Heap \<times> Cache)" where
  "run_ops [] s = Inr s"
| "run_ops (x # xs) s =
     (case apply_op x s of
        Inl e \<Rightarrow> Inl e
      | Inr s' \<Rightarrow> run_ops xs s')"

fun is_set_of :: "nat \<Rightarrow> 'v cache_op \<Rightarrow> bool" where
  "is_set_of t (SetValue t' v) = (t' = t)"
| "is_set_of t x = False"

text \<open>
  The heap objects a cache owns, and ownership: no object has two owning entries, and
  every owned object has been allocated.
\<close>

definition owned :: "Cache \<Rightarrow> nat list" where
  "owned c = List.map_filter value_ptr c"

definition owns :: "'v Heap \<Rightarrow> Cache \<Rightarrow> bool" where
  "owns h c = (distinct (owned c) \<and> list_all (\<lambda>p. p < brk h) (owned c))"

text \<open>
  The state of a cache as its interface shows it: per ticket the validity, the stored
  value and the dependents.
\<close>

definition observe :: "'v Heap \<Rightarrow> Cache \<Rightarrow> (bool \<times> 'v option \<times> nat list) list" where
  "observe h c =
     map (\<lambda>e. (is_valid e,
                (case value_ptr e of None \<Rightarrow> None | Some p \<Rightarrow> deref h p),
                dependents e)) c"

text \<open>
  The cache and the heap of the fixture of \<^verbatim>\<open>cache_test.cc\<close>: tickets 0, 1 (with
  prerequisite 0) and 2 (with prerequisites 0 and 1), holding the values 0, 1 and 2.
\<close>

definition example_heap :: "int Heap" where
  "example_heap = \<lparr>cells = (\<lambda>a. None)(0 := Some 0, 1 := Some 1, 2 := Some 2), brk = 3\<rparr>"

definition example_cache :: Cache where
  "example_cache =
     [\<lparr>value_ptr = Some 0, is_valid = True, dependents = [2, 1]\<rparr>,
      \<lparr>value_ptr = Some 1, is_valid = True, dependents = [2]\<rparr>,
      \<lparr>value_ptr = Some 2, is_valid = True, dependents = []\<rparr>]"

text \<open>
  A borrow \<open>p\<close> of the value \<open>v\<close>, taken at ticket \<open>t\<close>, is intact in a state: the object
  at \<open>p\<close> has been allocated and holds \<open>v\<close>, and no entry other than \<open>t\<close> owns it.
\<close>

definition borrow_intact :: "nat \<Rightarrow> 'v \<Rightarrow> nat \<Rightarrow> 'v Heap \<times> Cache \<Rightarrow> bool" where
  "borrow_intact p v t s =
     (p < brk (fst s) \<and> deref (fst s) p = Some v
      \<and> (\<forall>t'<length (snd s). t' \<noteq> t \<longrightarrow> value_ptr (snd s ! t') \<noteq> Some p))"

text \<open>
  A cache \<open>a\<close> is undisturbed in a state of the heap and of another cache: it shows what
  it showed in the heap \<open>h0\<close>, its objects are allocated, and the other cache owns none
  of them.
\<close>

definition undisturbed :: "Cache \<Rightarrow> 'v Heap \<Rightarrow> 'v Heap \<times> Cache \<Rightarrow> bool" where
  "undisturbed a h0 s =
     (observe (fst s) a = observe h0 a
      \<and> list_all (\<lambda>p. p < brk (fst s) \<and> p \<notin> set (owned (snd s))) (owned a))"

text \<open>
  \<open>example_wired\<close> after subsystem 1 has computed and stored a value (the object at
  address 0) at its ticket 3, the ticket that depends on its input port 0.
\<close>

definition example_computed :: "(real, int) Context" where
  "example_computed =
     DiagramContext
       \<lparr>time_sec = 0, cache = [empty_entry, empty_entry], time_ticket = 0, state_ticket = 1,
        input_tickets = [], parent = None\<rparr>
       \<lparr>this_ptr = 100, input_ids = [], output_ids = [],
        outputs = [Some [7, 8], Some [9]], dependency_graph = [((1, 0), (0, 0))],
        inverse_dependency_graph = [((0, 0), [(1, 0)])]\<rparr>
       [Some (LeafContext
          \<lparr>time_sec = 0, cache = [empty_entry, empty_entry, empty_entry], time_ticket = 0,
           state_ticket = 1, input_tickets = [2], parent = Some (100, 0)\<rparr> [None]),
        Some (LeafContext
          \<lparr>time_sec = 0,
           cache = [empty_entry, empty_entry, empty_entry\<lparr>dependents := [3]\<rparr>,
                    \<lparr>value_ptr = Some 0, is_valid = True, dependents = []\<rparr>],
           time_ticket = 0, state_ticket = 1, input_tickets = [2], parent = Some (100, 1)\<rparr>
          [Some (DependentInputPort (OutputPortPtr 100 0 0))])]"

text \<open>
  \<open>example_wired\<close> after \<^verbatim>\<open>ExportInput((0, 0))\<close> and \<^verbatim>\<open>ExportOutput((1, 0))\<close>: a fully
  constructed diagram context with one internal connection, one exported input and one
  exported output.
\<close>

definition example_exported :: "(real, int) Context" where
  "example_exported =
     DiagramContext
       \<lparr>time_sec = 0, cache = [empty_entry, empty_entry], time_ticket = 0, state_ticket = 1,
        input_tickets = [], parent = None\<rparr>
       \<lparr>this_ptr = 100, input_ids = [(0, 0)], output_ids = [(1, 0)],
        outputs = [Some [7, 8], Some [9]], dependency_graph = [((1, 0), (0, 0))],
        inverse_dependency_graph = [((0, 0), [(1, 0)])]\<rparr>
       [Some (LeafContext
          \<lparr>time_sec = 0, cache = [empty_entry, empty_entry, empty_entry], time_ticket = 0,
           state_ticket = 1, input_tickets = [2], parent = Some (100, 0)\<rparr> [None]),
        Some (LeafContext
          \<lparr>time_sec = 0,
           cache = [empty_entry, empty_entry, empty_entry\<lparr>dependents := [3]\<rparr>, empty_entry],
           time_ticket = 0, state_ticket = 1, input_tickets = [2], parent = Some (100, 1)\<rparr>
          [Some (DependentInputPort (OutputPortPtr 100 0 0))])]"

text \<open>A heap with no object in it whose next free address is 101.\<close>

definition example_empty_heap :: "int Heap" where
  "example_empty_heap = \<lparr>cells = (\<lambda>a. None), brk = 101\<rparr>"

text \<open>A diagram context without exported outputs.\<close>

fun no_exported_outputs :: "('t, 'v) Context \<Rightarrow> bool" where
  "no_exported_outputs (DiagramContext b f cs) = (output_ids f = [])"
| "no_exported_outputs (LeafContext b ins) = False"

text \<open>
  The invariant of the ticket graph: every edge leads from a ticket to a later ticket of
  the cache. Reachability through the edges.
\<close>

definition forward_edges :: "Cache \<Rightarrow> bool" where
  "forward_edges c =
     list_all (\<lambda>t. list_all (\<lambda>d. t < d \<and> d < length c) (dependents (c ! t))) [0..<length c]"

inductive reaches :: "Cache \<Rightarrow> nat \<Rightarrow> nat \<Rightarrow> bool" for c :: Cache where
  reaches_self: "reaches c t t"
| reaches_step: "d \<in> set (dependents (c ! t)) \<Longrightarrow> reaches c d t' \<Longrightarrow> reaches c t t'"

section \<open>Evaluation of the fixtures\<close>

lemma InvalidateEach_Nil: "InvalidateEach n [] c = c"
  by (simp add: InvalidateEach_def)

lemma InvalidateEach_Cons:
  "InvalidateEach n (d # ds) c = InvalidateEach n ds (InvalidateRecursively n c d)"
  by (simp add: InvalidateEach_def)

lemma InvalidateRecursively_unfold:
  "InvalidateRecursively n c t =
     InvalidateEach n (filter (\<lambda>d. t < d \<and> d < n) (dependents (c ! t)))
       (c[t := (c ! t)\<lparr>is_valid := False\<rparr>])"
  by (subst InvalidateRecursively.simps) (simp add: InvalidateEach_def)

lemmas Invalidate_eval =
  InvalidateRecursively_unfold InvalidateEach_Nil InvalidateEach_Cons Cache_Invalidate_def

lemma example_diagram_built:
  "\<exists>d. AddSystem (DiagramContext_init 100 2) 0 (LeafContext_init 1) [7, 8] = Returned d
      \<and> AddSystem d 1 example_leaf [9] = Returned example_diagram"
  by (simp add: DiagramContext_init_def LeafContext_init_def BuildCacheTickets_def
       example_diagram_def example_leaf_def numeral_2_eq_2 empty_entry_def)

lemma example_wired_built:
  "Connect example_diagram (0, 0) (1, 0) = Returned example_wired"
  by (simp add: example_diagram_def example_wired_def Let_def get_num_ports_def
      GetMutableSubsystemContext_def InvalidateInputPort_def Invalidate_eval empty_entry_def)

lemma example_rewired_built:
  "Connect example_wired (0, 1) (1, 0) = Returned example_rewired"
  by (simp add: example_wired_def example_rewired_def Let_def get_num_ports_def
      GetMutableSubsystemContext_def InvalidateInputPort_def Invalidate_eval empty_entry_def)

section \<open>Time propagation\<close>

lemma ContextBase_set_time_known:
  "time_ticket b < length (cache b) \<Longrightarrow>
   \<exists>b'. ContextBase_set_time t b = Inr b' \<and> time_sec b' = t"
  by (simp add: ContextBase_set_time_def InvalidateTime_def Cache_Invalidate_def)

lemma reports_time_get_time: "reports_time t c \<Longrightarrow> get_time c = t"
  by (cases c) (simp_all add: get_time_def)

lemma set_time_reports:
  fixes c :: "('t, 'v) Context" and cs :: "('t, 'v) Context option list"
  shows "time_ticket_known c \<Longrightarrow>
     \<exists>c'. set_time t c = Inr c' \<and> reports_time t c'
        \<and> (\<forall>b f cs. c = DiagramContext b f cs \<longrightarrow>
              (\<exists>b' cs'. c' = DiagramContext b' f cs' \<and> set_time_subcontexts t cs = Inr cs'))"
  and "time_tickets_known cs \<Longrightarrow>
     \<exists>cs'. set_time_subcontexts t cs = Inr cs' \<and> report_time t cs' \<and> length cs' = length cs
         \<and> (\<forall>i<length cs. (cs ! i = None \<longrightarrow> cs' ! i = None)
               \<and> (\<forall>c. cs ! i = Some c \<longrightarrow> (\<exists>c'. cs' ! i = Some c' \<and> reports_time t c')))"
proof (induction t c and t cs rule: set_time_set_time_subcontexts.induct)
  case (1 t b ins)
  then show ?case using ContextBase_set_time_known[of b t] by auto
next
  case (2 t b f cs)
  from "2.prems" obtain b' where b': "ContextBase_set_time t b = Inr b'" "time_sec b' = t"
    using ContextBase_set_time_known[of b t] by auto
  from "2.prems" have "time_tickets_known cs" by simp
  from "2.IH"[OF b'(1) this] obtain cs' where
    "set_time_subcontexts t cs = Inr cs'" "report_time t cs'" by blast
  with b' show ?case by simp
next
  case (3 t)
  then show ?case by simp
next
  case (4 t cs)
  then obtain cs' where cs': "set_time_subcontexts t cs = Inr cs'" "report_time t cs'"
      "length cs' = length cs"
      "\<forall>i<length cs. (cs ! i = None \<longrightarrow> cs' ! i = None)
               \<and> (\<forall>c. cs ! i = Some c \<longrightarrow> (\<exists>c'. cs' ! i = Some c' \<and> reports_time t c'))"
    by auto
  have "set_time_subcontexts t (None # cs) = Inr (None # cs')"
    using cs' by simp
  moreover have "report_time t (None # cs')" using cs' by simp
  moreover have "length (None # cs') = length (None # cs)" using cs' by simp
  moreover have "\<forall>i<length (None # cs).
       ((None # cs) ! i = None \<longrightarrow> (None # cs') ! i = None)
     \<and> (\<forall>c. (None # cs) ! i = Some c \<longrightarrow>
            (\<exists>c''. (None # cs') ! i = Some c'' \<and> reports_time t c''))"
  proof (intro allI impI)
    fix i assume "i < length (None # cs)"
    then show "((None # cs) ! i = None \<longrightarrow> (None # cs') ! i = None)
     \<and> (\<forall>c. (None # cs) ! i = Some c \<longrightarrow>
            (\<exists>c''. (None # cs') ! i = Some c'' \<and> reports_time t c''))"
      using cs'(4) by (cases i) simp_all
  qed
  ultimately show ?case by blast
next
  case (5 t subcontext cs)
  from "5.prems" have k: "time_ticket_known subcontext" "time_tickets_known cs" by simp_all
  from "5.IH"(1)[OF k(1)] obtain c' where c': "set_time t subcontext = Inr c'" "reports_time t c'"
    by blast
  from "5.IH"(2)[OF c'(1) k(2)] obtain cs' where cs': "set_time_subcontexts t cs = Inr cs'"
      "report_time t cs'" "length cs' = length cs"
      "\<forall>i<length cs. (cs ! i = None \<longrightarrow> cs' ! i = None)
               \<and> (\<forall>c. cs ! i = Some c \<longrightarrow> (\<exists>c'. cs' ! i = Some c' \<and> reports_time t c'))"
    by blast
  have "set_time_subcontexts t (Some subcontext # cs) = Inr (Some c' # cs')"
    using c' cs' by simp
  moreover have "report_time t (Some c' # cs')" using c' cs' by simp
  moreover have "length (Some c' # cs') = length (Some subcontext # cs)" using cs' by simp
  moreover have "\<forall>i<length (Some subcontext # cs).
       ((Some subcontext # cs) ! i = None \<longrightarrow> (Some c' # cs') ! i = None)
     \<and> (\<forall>c. (Some subcontext # cs) ! i = Some c \<longrightarrow>
            (\<exists>c''. (Some c' # cs') ! i = Some c'' \<and> reports_time t c''))"
  proof (intro allI impI)
    fix i assume "i < length (Some subcontext # cs)"
    then show "((Some subcontext # cs) ! i = None \<longrightarrow> (Some c' # cs') ! i = None)
     \<and> (\<forall>c. (Some subcontext # cs) ! i = Some c \<longrightarrow>
            (\<exists>c''. (Some c' # cs') ! i = Some c'' \<and> reports_time t c''))"
      using c'(2) cs'(4) by (cases i) simp_all
  qed
  ultimately show ?case by blast
qed

text \<open>
  C2. For a diagram context in which every context has its time ticket, \<^verbatim>\<open>set_time(t)\<close>
  returns; afterwards the diagram context reports the time \<open>t\<close>, it has the same
  subsystems installed at the same indices, and every child context reports the time
  \<open>t\<close>, as does every context below it.
\<close>

theorem set_time_propagates:
  assumes "time_ticket_known (DiagramContext b f cs)"
  shows "\<exists>b' cs'. set_time t (DiagramContext b f cs) = Inr (DiagramContext b' f cs')
           \<and> get_time (DiagramContext b' f cs') = t
           \<and> length cs' = length cs
           \<and> (\<forall>i<length cs.
                 (cs ! i = None \<longrightarrow> cs' ! i = None)
               \<and> (\<forall>c. cs ! i = Some c \<longrightarrow>
                     (\<exists>c'. cs' ! i = Some c' \<and> get_time c' = t \<and> reports_time t c')))"
proof -
  from set_time_reports(1)[OF assms, of t] obtain c' where
    c': "set_time t (DiagramContext b f cs) = Inr c'" "reports_time t c'"
    "\<forall>b0 f0 cs0. DiagramContext b f cs = DiagramContext b0 f0 cs0 \<longrightarrow>
        (\<exists>b' cs'. c' = DiagramContext b' f0 cs' \<and> set_time_subcontexts t cs0 = Inr cs')"
    by blast
  from c'(3) obtain b' cs' where d: "c' = DiagramContext b' f cs'"
    and sub: "set_time_subcontexts t cs = Inr cs'"
    by blast
  from assms have "time_tickets_known cs" by simp
  from set_time_reports(2)[OF this, of t] obtain cs'' where
    x: "set_time_subcontexts t cs = Inr cs''" "length cs'' = length cs"
    "\<forall>i<length cs. (cs ! i = None \<longrightarrow> cs'' ! i = None)
               \<and> (\<forall>c. cs ! i = Some c \<longrightarrow> (\<exists>c'. cs'' ! i = Some c' \<and> reports_time t c'))"
    by blast
  from x(1) sub have e: "cs'' = cs'" by simp
  have ch: "\<forall>i<length cs.
                 (cs ! i = None \<longrightarrow> cs' ! i = None)
               \<and> (\<forall>c. cs ! i = Some c \<longrightarrow>
                     (\<exists>c'. cs' ! i = Some c' \<and> get_time c' = t \<and> reports_time t c'))"
  proof (intro allI impI conjI)
    fix i assume "i < length cs" "cs ! i = None"
    with x(3) e show "cs' ! i = None" by simp
  next
    fix i c assume "i < length cs" "cs ! i = Some c"
    with x(3) e obtain c1 where "cs' ! i = Some c1" "reports_time t c1" by blast
    then show "\<exists>c'. cs' ! i = Some c' \<and> get_time c' = t \<and> reports_time t c'"
      using reports_time_get_time[of t c1] by simp
  qed
  have g: "get_time (DiagramContext b' f cs') = t"
    using c'(2) d reports_time_get_time[of t c'] by simp
  show ?thesis
    apply (rule exI[of _ b'])
    apply (rule exI[of _ cs'])
    using c'(1) d g x(2) e ch by simp
qed

theorem set_time_propagates_witness:
  "time_ticket_known example_three
   \<and> (\<exists>d' c0 c1 c2. set_time (15 / 2) example_three = Inr d'
        \<and> get_time d' = 15 / 2
        \<and> num_subsystems d' = 3
        \<and> GetSubsystemContext d' 0 = Inr c0 \<and> get_time c0 = 15 / 2
        \<and> GetSubsystemContext d' 1 = Inr c1 \<and> get_time c1 = 15 / 2
        \<and> GetSubsystemContext d' 2 = Inr c2 \<and> get_time c2 = 15 / 2
        \<and> reports_time (15 / 2) c2)"
proof -
  have k: "time_ticket_known example_three"
    by (simp add: example_three_def example_diagram_def example_leaf_def LeafContext_init_def
        BuildCacheTickets_def)
  let ?cs = "[Some (set_parent_and_index (LeafContext_init 0) 200 0),
        Some (set_parent_and_index example_leaf 200 1),
        Some (set_parent_and_index example_diagram 200 2)] :: (real, int) Context option list"
  from set_time_propagates[OF k[unfolded example_three_def], of "15 / 2"]
  obtain b' cs' where
    s: "set_time (15 / 2) example_three = Inr (DiagramContext b' (diagram example_three) cs')"
    and g: "get_time (DiagramContext b' (diagram example_three) cs') = 15 / 2"
    and l: "length cs' = 3"
    and ch: "\<forall>i<length ?cs. (?cs ! i = None \<longrightarrow> cs' ! i = None)
               \<and> (\<forall>c. ?cs ! i = Some c \<longrightarrow>
                     (\<exists>c'. cs' ! i = Some c' \<and> get_time c' = 15 / 2 \<and> reports_time (15 / 2) c'))"
    unfolding example_three_def by auto
  from ch[rule_format, of 0] obtain c0 where c0: "cs' ! 0 = Some c0" "get_time c0 = 15 / 2"
    by auto
  from ch[rule_format, of 1] obtain c1 where c1: "cs' ! 1 = Some c1" "get_time c1 = 15 / 2"
    by auto
  from ch[rule_format, of 2] obtain c2 where c2: "cs' ! 2 = Some c2" "get_time c2 = 15 / 2"
      "reports_time (15 / 2) c2"
    by auto
  have "GetSubsystemContext (DiagramContext b' (diagram example_three) cs') 0 = Inr c0"
    "GetSubsystemContext (DiagramContext b' (diagram example_three) cs') 1 = Inr c1"
    "GetSubsystemContext (DiagramContext b' (diagram example_three) cs') 2 = Inr c2"
    "num_subsystems (DiagramContext b' (diagram example_three) cs') = 3"
    using l c0 c1 c2 by simp_all
  with k s g c0 c1 c2 show ?thesis by blast
qed

section \<open>AddSystem\<close>

text \<open>
  C8. For a diagram context of size \<open>n\<close> (whose \<^verbatim>\<open>outputs_\<close> has the size of
  \<^verbatim>\<open>contexts_\<close>, as \<^verbatim>\<open>num_subsystems\<close> asserts), \<^verbatim>\<open>AddSystem(index, context, output)\<close> is
  aborted by a \<^verbatim>\<open>DRAKE_DEMAND\<close> when the index is outside \<open>[0, n)\<close> or when a context or
  an output set is already installed at the index, and the diagram context is then as it
  was before the call. Otherwise the call returns; afterwards the size is the same, the
  context at the index is the given one with the back-pointer (this diagram, index)
  recorded in it, the output set at the index is the given one, and every other index
  holds what it held before.
\<close>

theorem AddSystem_installs_or_aborts:
  assumes "length (outputs f) = length cs"
  shows "((index < 0 \<or> num_subsystems (DiagramContext b f cs) \<le> index
            \<or> (\<exists>c. GetSubsystemContext (DiagramContext b f cs) index = Inr c)
            \<or> (\<exists>out. GetSubsystemOutput (DiagramContext b f cs) index = Inr out))
          \<longrightarrow> AddSystem (DiagramContext b f cs) index child_context output
                = Aborted DemandFailed (DiagramContext b f cs))
       \<and> (\<not> (index < 0 \<or> num_subsystems (DiagramContext b f cs) \<le> index
            \<or> (\<exists>c. GetSubsystemContext (DiagramContext b f cs) index = Inr c)
            \<or> (\<exists>out. GetSubsystemOutput (DiagramContext b f cs) index = Inr out))
          \<longrightarrow> (\<exists>d' child.
                AddSystem (DiagramContext b f cs) index child_context output = Returned d'
              \<and> num_subsystems d' = num_subsystems (DiagramContext b f cs)
              \<and> GetSubsystemContext d' index = Inr child
              \<and> child = set_parent_and_index child_context (this_ptr f) index
              \<and> parent (data child) = Some (this_ptr f, index)
              \<and> GetSubsystemOutput d' index = Inr output
              \<and> (\<forall>j. j \<noteq> index \<longrightarrow>
                    GetSubsystemContext d' j = GetSubsystemContext (DiagramContext b f cs) j
                  \<and> GetSubsystemOutput d' j = GetSubsystemOutput (DiagramContext b f cs) j)))"
proof (intro conjI impI)
  assume "index < 0 \<or> num_subsystems (DiagramContext b f cs) \<le> index
            \<or> (\<exists>c. GetSubsystemContext (DiagramContext b f cs) index = Inr c)
            \<or> (\<exists>out. GetSubsystemOutput (DiagramContext b f cs) index = Inr out)"
  then show "AddSystem (DiagramContext b f cs) index child_context output
                = Aborted DemandFailed (DiagramContext b f cs)"
    using assms by (auto split: option.splits if_splits)
next
  assume vacant: "\<not> (index < 0 \<or> num_subsystems (DiagramContext b f cs) \<le> index
            \<or> (\<exists>c. GetSubsystemContext (DiagramContext b f cs) index = Inr c)
            \<or> (\<exists>out. GetSubsystemOutput (DiagramContext b f cs) index = Inr out))"
  then have rng: "0 \<le> index" "index < int (length cs)" by simp_all
  then have n: "nat index < length cs" by simp
  from vacant rng have c: "cs ! nat index = None"
    by (cases "cs ! nat index") auto
  from vacant rng n assms have out: "outputs f ! nat index = None"
    by (cases "outputs f ! nat index") auto
  let ?d' = "DiagramContext b (f\<lparr>outputs := (outputs f)[nat index := Some output]\<rparr>)
                (cs[nat index := Some (set_parent_and_index child_context (this_ptr f) index)])"
  have r: "AddSystem (DiagramContext b f cs) index child_context output = Returned ?d'"
    using rng n c out assms by simp
  have p: "parent (data (set_parent_and_index child_context (this_ptr f) index))
             = Some (this_ptr f, index)"
    by (cases child_context) simp_all
  have other: "\<forall>j. j \<noteq> index \<longrightarrow>
                    GetSubsystemContext ?d' j = GetSubsystemContext (DiagramContext b f cs) j
                  \<and> GetSubsystemOutput ?d' j = GetSubsystemOutput (DiagramContext b f cs) j"
    using rng by (auto simp: nth_list_update nat_eq_iff)
  show "\<exists>d' child.
                AddSystem (DiagramContext b f cs) index child_context output = Returned d'
              \<and> num_subsystems d' = num_subsystems (DiagramContext b f cs)
              \<and> GetSubsystemContext d' index = Inr child
              \<and> child = set_parent_and_index child_context (this_ptr f) index
              \<and> parent (data child) = Some (this_ptr f, index)
              \<and> GetSubsystemOutput d' index = Inr output
              \<and> (\<forall>j. j \<noteq> index \<longrightarrow>
                    GetSubsystemContext d' j = GetSubsystemContext (DiagramContext b f cs) j
                  \<and> GetSubsystemOutput d' j = GetSubsystemOutput (DiagramContext b f cs) j)"
    apply (rule exI[of _ ?d'])
    apply (rule exI[of _ "set_parent_and_index child_context (this_ptr f) index"])
    using r p other rng n assms by simp
qed

theorem AddSystem_installs_or_aborts_witness:
  "length (outputs (diagram (DiagramContext_init 100 2 :: (real, int) Context))) = 2
   \<and> AddSystem (DiagramContext_init 100 2 :: (real, int) Context) 2 (LeafContext_init 1) [7, 8]
       = Aborted DemandFailed (DiagramContext_init 100 2)
   \<and> AddSystem example_diagram 1 (LeafContext_init 1) [7, 8]
       = Aborted DemandFailed example_diagram
   \<and> (\<exists>d' child.
          AddSystem (DiagramContext_init 100 2 :: (real, int) Context) 0 (LeafContext_init 1) [7, 8]
            = Returned d'
        \<and> GetSubsystemContext d' 0 = Inr child
        \<and> parent (data child) = Some (100, 0)
        \<and> GetSubsystemOutput d' 0 = Inr [7, 8])"
proof -
  let ?b = "BuildCacheTickets 0 \<lparr>time_sec = 0::real, cache = [], time_ticket = 0,
              state_ticket = 0, input_tickets = [], parent = None\<rparr>"
  let ?f = "\<lparr>this_ptr = 100, input_ids = [], output_ids = [],
        outputs = replicate 2 (None :: int list option), dependency_graph = [],
        inverse_dependency_graph = []\<rparr>"
  let ?cs = "replicate 2 (None :: (real, int) Context option)"
  have l: "length (outputs ?f) = length ?cs" by simp
  note t = AddSystem_installs_or_aborts[OF l, of _ ?b "LeafContext_init 1" "[7, 8]"]
  have a: "AddSystem (DiagramContext_init 100 2 :: (real, int) Context) 2 (LeafContext_init 1) [7, 8]
       = Aborted DemandFailed (DiagramContext_init 100 2)"
    using t[of 2] by (simp add: DiagramContext_init_def)
  have c: "\<exists>d' child.
          AddSystem (DiagramContext_init 100 2 :: (real, int) Context) 0 (LeafContext_init 1) [7, 8]
            = Returned d'
        \<and> GetSubsystemContext d' 0 = Inr child
        \<and> parent (data child) = Some (100, 0)
        \<and> GetSubsystemOutput d' 0 = Inr [7, 8]"
    using t[of 0] by (simp add: DiagramContext_init_def numeral_2_eq_2 LeafContext_init_def)
  let ?f2 = "diagram example_diagram"
  have l2: "length (outputs ?f2) = length [Some (LeafContext
          \<lparr>time_sec = 0::real, cache = [empty_entry, empty_entry, empty_entry], time_ticket = 0,
           state_ticket = 1, input_tickets = [2], parent = Some (100, 0)\<rparr> ([None] :: int InputPort option list)),
        Some (LeafContext
          \<lparr>time_sec = 0,
           cache = [empty_entry, empty_entry, empty_entry\<lparr>dependents := [3]\<rparr>, empty_entry],
           time_ticket = 0, state_ticket = 1, input_tickets = [2], parent = Some (100, 1)\<rparr>
          [None])]"
    by (simp add: example_diagram_def)
  have b: "AddSystem example_diagram 1 (LeafContext_init 1) [7, 8]
       = Aborted DemandFailed example_diagram"
    using AddSystem_installs_or_aborts[OF l2, of 1 _ "LeafContext_init 1" "[7, 8]"]
    by (simp add: example_diagram_def)
  show ?thesis using a b c by (simp add: DiagramContext_init_def)
qed

section \<open>ExportInput, ExportOutput and Connect\<close>

text \<open>
  C9. \<^verbatim>\<open>ExportInput\<close> and \<^verbatim>\<open>ExportOutput\<close> check only that a child context is installed
  at the subsystem index of the identifier: with a child installed there they return for
  every port index whatever, also one the child does not have, and append the identifier
  to the exported list; with a null pointer there they are aborted by the
  \<^verbatim>\<open>DRAKE_DEMAND\<close>. \<^verbatim>\<open>Connect\<close>, in contrast, is aborted when the port index of its
  source or of its destination is outside the ports of the installed subsystem.
\<close>

theorem Export_checks_only_subsystem:
  "(\<forall>child. GetSubsystemContext (DiagramContext b f cs) system_index = Inr child \<longrightarrow>
       (\<forall>port_index.
          ExportInput (DiagramContext b f cs) (system_index, port_index)
            = Returned (DiagramContext b
                 (f\<lparr>input_ids := input_ids f @ [(system_index, port_index)]\<rparr>) cs)
        \<and> ExportOutput (DiagramContext b f cs) (system_index, port_index)
            = Returned (DiagramContext b
                 (f\<lparr>output_ids := output_ids f @ [(system_index, port_index)]\<rparr>) cs)))
   \<and> (0 \<le> system_index \<and> system_index < num_subsystems (DiagramContext b f cs)
        \<and> GetSubsystemContext (DiagramContext b f cs) system_index = Inl DemandFailed \<longrightarrow>
       (\<forall>port_index.
          ExportInput (DiagramContext b f cs) (system_index, port_index)
            = Aborted DemandFailed (DiagramContext b f cs)
        \<and> ExportOutput (DiagramContext b f cs) (system_index, port_index)
            = Aborted DemandFailed (DiagramContext b f cs)))
   \<and> (\<forall>src_ports. GetSubsystemOutput (DiagramContext b f cs) (fst src) = Inr src_ports
        \<and> \<not> (0 \<le> snd src \<and> snd src < get_num_ports src_ports) \<longrightarrow>
          Connect (DiagramContext b f cs) src dest = Aborted DemandFailed (DiagramContext b f cs))
   \<and> (\<forall>src_ports dest_context.
          GetSubsystemOutput (DiagramContext b f cs) (fst src) = Inr src_ports
        \<and> GetSubsystemContext (DiagramContext b f cs) (fst dest) = Inr dest_context
        \<and> \<not> (0 \<le> snd dest \<and> snd dest < get_num_input_ports dest_context) \<longrightarrow>
          Connect (DiagramContext b f cs) src dest = Aborted DemandFailed (DiagramContext b f cs))"
proof (intro conjI allI impI)
  fix child port_index
  assume g: "GetSubsystemContext (DiagramContext b f cs) system_index = Inr child"
  then have i: "0 \<le> system_index \<and> nat system_index < length cs \<and> cs ! nat system_index \<noteq> None"
    by (auto split: if_splits option.splits)
  from i show "ExportInput (DiagramContext b f cs) (system_index, port_index)
            = Returned (DiagramContext b
                 (f\<lparr>input_ids := input_ids f @ [(system_index, port_index)]\<rparr>) cs)"
    by simp
  from i show "ExportOutput (DiagramContext b f cs) (system_index, port_index)
            = Returned (DiagramContext b
                 (f\<lparr>output_ids := output_ids f @ [(system_index, port_index)]\<rparr>) cs)"
    by simp
next
  fix port_index
  assume g: "0 \<le> system_index \<and> system_index < num_subsystems (DiagramContext b f cs)
        \<and> GetSubsystemContext (DiagramContext b f cs) system_index = Inl DemandFailed"
  then have i: "0 \<le> system_index \<and> nat system_index < length cs \<and> cs ! nat system_index = None"
    by (auto split: if_splits option.splits)
  from i show "ExportInput (DiagramContext b f cs) (system_index, port_index)
            = Aborted DemandFailed (DiagramContext b f cs)"
    by simp
  from i show "ExportOutput (DiagramContext b f cs) (system_index, port_index)
            = Aborted DemandFailed (DiagramContext b f cs)"
    by simp
next
  fix src_ports
  assume "GetSubsystemOutput (DiagramContext b f cs) (fst src) = Inr src_ports
        \<and> \<not> (0 \<le> snd src \<and> snd src < get_num_ports src_ports)"
  then show "Connect (DiagramContext b f cs) src dest = Aborted DemandFailed (DiagramContext b f cs)"
    by (auto simp: Let_def simp del: GetSubsystemOutput.simps)
next
  fix src_ports dest_context
  assume "GetSubsystemOutput (DiagramContext b f cs) (fst src) = Inr src_ports
        \<and> GetSubsystemContext (DiagramContext b f cs) (fst dest) = Inr dest_context
        \<and> \<not> (0 \<le> snd dest \<and> snd dest < get_num_input_ports dest_context)"
  then show "Connect (DiagramContext b f cs) src dest = Aborted DemandFailed (DiagramContext b f cs)"
    by (auto simp: Let_def GetMutableSubsystemContext_def
        simp del: GetSubsystemOutput.simps GetSubsystemContext.simps)
qed

theorem Export_checks_only_subsystem_witness:
  "(\<exists>child. GetSubsystemContext example_diagram 0 = Inr child \<and> get_num_input_ports child = 1)
   \<and> GetSubsystemOutput example_diagram 0 = Inr [7, 8]
   \<and> (\<exists>d'. ExportInput example_diagram (0, 5) = Returned d' \<and> input_ids (diagram d') = [(0, 5)])
   \<and> (\<exists>d'. ExportOutput example_diagram (0, 5) = Returned d' \<and> output_ids (diagram d') = [(0, 5)])
   \<and> ExportInput (DiagramContext_init 100 2 :: (real, int) Context) (0, 0)
        = Aborted DemandFailed (DiagramContext_init 100 2)
   \<and> Connect example_diagram (0, 5) (1, 0) = Aborted DemandFailed example_diagram
   \<and> Connect example_diagram (0, 0) (1, 5) = Aborted DemandFailed example_diagram"
proof -
  note t = Export_checks_only_subsystem[of
      "\<lparr>time_sec = 0::real, cache = [empty_entry, empty_entry], time_ticket = 0,
        state_ticket = 1, input_tickets = [], parent = None\<rparr>"
      "\<lparr>this_ptr = 100, input_ids = [], output_ids = [],
        outputs = [Some [7, 8], Some [9::int]], dependency_graph = [],
        inverse_dependency_graph = []\<rparr>"
      "[Some (LeafContext
          \<lparr>time_sec = 0, cache = [empty_entry, empty_entry, empty_entry], time_ticket = 0,
           state_ticket = 1, input_tickets = [2], parent = Some (100, 0)\<rparr> [None]),
        Some (LeafContext
          \<lparr>time_sec = 0,
           cache = [empty_entry, empty_entry, empty_entry\<lparr>dependents := [3]\<rparr>, empty_entry],
           time_ticket = 0, state_ticket = 1, input_tickets = [2], parent = Some (100, 1)\<rparr>
          [None])]" 0, folded example_diagram_def]
  have g: "\<exists>child. GetSubsystemContext example_diagram 0 = Inr child \<and> get_num_input_ports child = 1"
    by (simp add: example_diagram_def)
  have o: "GetSubsystemOutput example_diagram 0 = Inr [7, 8]"
    by (simp add: example_diagram_def)
  from g obtain child where c: "GetSubsystemContext example_diagram 0 = Inr child" by blast
  have e1: "\<exists>d'. ExportInput example_diagram (0, 5) = Returned d' \<and> input_ids (diagram d') = [(0, 5)]"
    using t[of "(0, 5)" "(1, 0)"] c by simp
  have e2: "\<exists>d'. ExportOutput example_diagram (0, 5) = Returned d' \<and> output_ids (diagram d') = [(0, 5)]"
    using t[of "(0, 5)" "(1, 0)"] c by simp
  have e3: "ExportInput (DiagramContext_init 100 2 :: (real, int) Context) (0, 0)
        = Aborted DemandFailed (DiagramContext_init 100 2)"
    by (simp add: DiagramContext_init_def)
  have e4: "Connect example_diagram (0, 5) (1, 0) = Aborted DemandFailed example_diagram"
    using t[of "(0, 5)" "(1, 0)"] o by (simp add: get_num_ports_def)
  have d: "\<exists>child. GetSubsystemContext example_diagram 1 = Inr child \<and> get_num_input_ports child = 1"
    by (simp add: example_diagram_def)
  have e5: "Connect example_diagram (0, 0) (1, 5) = Aborted DemandFailed example_diagram"
    using t[of "(0, 0)" "(1, 5)"] o d by auto
  from g o e1 e2 e3 e4 e5 show ?thesis by blast
qed

section \<open>Reconnecting a destination\<close>

lemma map_of_map_assign: "map_of (map_assign k v m) = (map_of m)(k \<mapsto> v)"
  by (induction m) (auto simp: fun_eq_iff)

lemma map_push_back_other:
  "j \<noteq> k \<Longrightarrow> map_of (map_push_back k v m) j = map_of m j"
  by (induction m) auto

lemma map_push_back_same:
  "\<exists>vs. map_of (map_push_back k v m) k = Some (vs @ [v])"
  by (induction m) auto

lemma Connect_Returned:
  assumes "Connect (DiagramContext b f cs) src dest = Returned d'"
  shows "\<exists>cs'. d' = DiagramContext b
            (f\<lparr>dependency_graph := map_assign dest src (dependency_graph f),
               inverse_dependency_graph :=
                 map_push_back src dest (inverse_dependency_graph f)\<rparr>) cs'"
  using assms by (auto simp: Let_def split: sum.splits if_splits)

lemma not_transpose:
  assumes "dest \<in> set (consumers_of f s1)" "source_of f dest = Some s2" "s1 \<noteq> s2"
  shows "\<not> is_transpose f"
proof
  assume t: "is_transpose f"
  from assms(1) obtain dests where m: "map_of (inverse_dependency_graph f) s1 = Some dests"
    and d: "dest \<in> set dests"
    by (cases "map_of (inverse_dependency_graph f) s1") (auto simp: consumers_of_def)
  from m have "(s1, dests) \<in> set (inverse_dependency_graph f)" by (rule map_of_SomeD)
  with t d have "source_of f dest = Some s1"
    by (auto simp: is_transpose_def list_all_iff)
  with assms(2,3) show False by simp
qed

text \<open>
  C10. When \<^verbatim>\<open>Connect(s1, dest)\<close> and then \<^verbatim>\<open>Connect(s2, dest)\<close> return, with \<open>s1\<close> and
  \<open>s2\<close> different, \<^verbatim>\<open>dependency_graph_\<close> maps \<open>dest\<close> to \<open>s2\<close> only, while
  \<^verbatim>\<open>inverse_dependency_graph_\<close> lists \<open>dest\<close> among the consumers of \<open>s1\<close> and among those
  of \<open>s2\<close>: the two graphs are not transposes of each other any more.
\<close>

theorem Connect_reconnect:
  assumes c1: "Connect (DiagramContext b f cs) s1 dest = Returned d1"
      and c2: "Connect d1 s2 dest = Returned d2"
      and ne: "s1 \<noteq> s2"
  shows "source_of (diagram d2) dest = Some s2
       \<and> dest \<in> set (consumers_of (diagram d2) s1)
       \<and> dest \<in> set (consumers_of (diagram d2) s2)
       \<and> \<not> is_transpose (diagram d2)"
proof -
  let ?f1 = "f\<lparr>dependency_graph := map_assign dest s1 (dependency_graph f),
               inverse_dependency_graph := map_push_back s1 dest (inverse_dependency_graph f)\<rparr>"
  from Connect_Returned[OF c1] obtain cs1 where d1: "d1 = DiagramContext b ?f1 cs1" by blast
  let ?f2 = "?f1\<lparr>dependency_graph := map_assign dest s2 (dependency_graph ?f1),
               inverse_dependency_graph := map_push_back s2 dest (inverse_dependency_graph ?f1)\<rparr>"
  from Connect_Returned[OF c2[unfolded d1]] obtain cs2 where d2: "d2 = DiagramContext b ?f2 cs2"
    by blast
  have src: "source_of (diagram d2) dest = Some s2"
    by (simp add: d2 source_of_def map_of_map_assign)
  have in2: "dest \<in> set (consumers_of (diagram d2) s2)"
    using map_push_back_same[of s2 dest "inverse_dependency_graph ?f1"]
    by (auto simp: d2 consumers_of_def)
  have "dest \<in> set (consumers_of ?f1 s1)"
    using map_push_back_same[of s1 dest "inverse_dependency_graph f"]
    by (auto simp: consumers_of_def)
  moreover have "consumers_of (diagram d2) s1 = consumers_of ?f1 s1"
    using ne by (simp add: d2 consumers_of_def map_push_back_other)
  ultimately have in1: "dest \<in> set (consumers_of (diagram d2) s1)" by simp
  from in1 src ne have "\<not> is_transpose (diagram d2)" by (rule not_transpose)
  with src in1 in2 show ?thesis by simp
qed

theorem Connect_reconnect_witness:
  "Connect example_diagram (0, 0) (1, 0) = Returned example_wired
   \<and> Connect example_wired (0, 1) (1, 0) = Returned example_rewired
   \<and> ((0, 0) :: PortIdentifier) \<noteq> (0, 1)
   \<and> source_of (diagram example_rewired) (1, 0) = Some (0, 1)
   \<and> (1, 0) \<in> set (consumers_of (diagram example_rewired) (0, 0))
   \<and> (1, 0) \<in> set (consumers_of (diagram example_rewired) (0, 1))
   \<and> \<not> is_transpose (diagram example_rewired)"
proof -
  have ne: "((0, 0) :: PortIdentifier) \<noteq> (0, 1)" by simp
  from Connect_reconnect[OF example_wired_built[unfolded example_diagram_def]
      example_rewired_built ne]
  show ?thesis using example_wired_built example_rewired_built by simp
qed

section \<open>Cache: set, get and swap\<close>

lemma MakeCacheTicket_no_prerequisites:
  "MakeCacheTicket c [] = Inr (c @ [empty_entry], length c)"
  by (simp add: MakeCacheTicket_def)

text \<open>
  C7. On any cache and any heap, for a fresh ticket \<open>t\<close> made without prerequisites:
  \<^verbatim>\<open>set(t, v)\<close> returns a borrow \<open>p\<close> of the stored value, which reads \<open>v\<close>, and \<^verbatim>\<open>get(t)\<close>
  returns the same borrow; \<^verbatim>\<open>swap(t, w)\<close> then returns the prior payload, the object at
  \<open>p\<close>, which still exists and still holds \<open>v\<close>; afterwards \<^verbatim>\<open>get(t)\<close> returns a borrow of
  another object, which reads \<open>w\<close>; and the swap changes neither the validity nor the
  dependents of any entry.
\<close>

theorem Cache_set_get_swap:
  "\<exists>c1 t h1 c2 p h2 c3 q.
      MakeCacheTicket c [] = Inr (c1, t)
    \<and> Cache_Set h c1 t v = Inr (h1, c2, p)
    \<and> deref h1 p = Some v
    \<and> Cache_Get c2 t = Inr (Some p)
    \<and> read_ticket h1 c2 t = Inr (Some v)
    \<and> Cache_Swap h1 c2 t w = Inr (h2, c3, Some p)
    \<and> deref h2 p = Some v
    \<and> Cache_Get c3 t = Inr (Some q) \<and> q \<noteq> p
    \<and> read_ticket h2 c3 t = Inr (Some w)
    \<and> map is_valid c3 = map is_valid c2
    \<and> map dependents c3 = map dependents c2"
proof -
  let ?t = "length c"
  let ?c1 = "c @ [empty_entry]"
  let ?p = "brk h"
  let ?h1 = "alloc h (Some v)"
  let ?c2 = "c @ [empty_entry\<lparr>value_ptr := Some ?p, is_valid := True\<rparr>]"
  let ?q = "Suc (brk h)"
  let ?h2 = "alloc ?h1 (Some w)"
  let ?c3 = "c @ [empty_entry\<lparr>value_ptr := Some ?q, is_valid := True\<rparr>]"
  have m: "MakeCacheTicket c [] = Inr (?c1, ?t)" by (rule MakeCacheTicket_no_prerequisites)
  have s: "Cache_Set h ?c1 ?t v = Inr (?h1, ?c2, ?p)"
    by (simp add: Cache_Set_def free_def empty_entry_def)
  have d1: "deref ?h1 ?p = Some v" by (simp add: deref_def alloc_def)
  have g1: "Cache_Get ?c2 ?t = Inr (Some ?p)" by (simp add: Cache_Get_def)
  have r1: "read_ticket ?h1 ?c2 ?t = Inr (Some v)"
    by (simp add: read_ticket_def g1 d1)
  have w: "Cache_Swap ?h1 ?c2 ?t w = Inr (?h2, ?c3, Some ?p)"
    by (simp add: Cache_Swap_def alloc_def)
  have d2: "deref ?h2 ?p = Some v" by (simp add: deref_def alloc_def)
  have g2: "Cache_Get ?c3 ?t = Inr (Some ?q)" by (simp add: Cache_Get_def)
  have d3: "deref ?h2 ?q = Some w" by (simp add: deref_def alloc_def)
  have r2: "read_ticket ?h2 ?c3 ?t = Inr (Some w)"
    by (simp add: read_ticket_def g2 d3)
  have k: "map is_valid ?c3 = map is_valid ?c2" "map dependents ?c3 = map dependents ?c2"
    by simp_all
  have ne: "?q \<noteq> ?p" by simp
  from m s d1 g1 r1 w d2 g2 ne r2 k show ?thesis by blast
qed

section \<open>Cache: recursive invalidation\<close>

lemma MakeCacheTicket_second:
  "MakeCacheTicket (c @ [empty_entry]) [length c]
     = Inr (c @ [empty_entry\<lparr>dependents := [Suc (length c)]\<rparr>, empty_entry], Suc (length c))"
  by (simp add: MakeCacheTicket_def add_dependent_def empty_entry_def)

lemma MakeCacheTicket_third:
  "MakeCacheTicket (c @ [empty_entry\<lparr>dependents := [Suc (length c)]\<rparr>, empty_entry])
       [length c, Suc (length c)]
     = Inr (c @ [empty_entry\<lparr>dependents := [Suc (Suc (length c)), Suc (length c)]\<rparr>,
                 empty_entry\<lparr>dependents := [Suc (Suc (length c))]\<rparr>,
                 empty_entry], Suc (Suc (length c)))"
  by (simp add: MakeCacheTicket_def add_dependent_def empty_entry_def nth_append
      list_update_append)

lemma Cache_Invalidate_middle:
  assumes "dependents e1 = [Suc (Suc (length c))]" "dependents e2 = []"
  shows "Cache_Invalidate (c @ [e0, e1, e2]) (Suc (length c))
           = Inr (c @ [e0, e1\<lparr>is_valid := False\<rparr>, e2\<lparr>is_valid := False\<rparr>])"
  using assms
  by (simp add: Invalidate_eval nth_append list_update_append)

text \<open>
  C1. On any cache and any heap, make \<open>t0\<close> without prerequisites, \<open>t1\<close> with
  prerequisite \<open>t0\<close>, \<open>t2\<close> with prerequisites \<open>t0\<close> and \<open>t1\<close>, and set values at all
  three. Then \<^verbatim>\<open>invalidate(t1)\<close> returns, and afterwards \<^verbatim>\<open>get(t0)\<close> still yields its
  value while \<^verbatim>\<open>get(t1)\<close> and \<^verbatim>\<open>get(t2)\<close> are absent. After a further \<^verbatim>\<open>set(t2, v)\<close>,
  which makes \<open>t2\<close> readable again although \<open>t1\<close> is still invalid, a second
  \<^verbatim>\<open>invalidate(t1)\<close> makes \<^verbatim>\<open>get(t2)\<close> absent again.
\<close>

theorem Cache_invalidation_is_recursive:
  "\<exists>c1 t0 c2 t1 c3 t2 h1 c4 p0 h2 c5 p1 h3 c6 p2 c7 h4 c8 p3 c9.
      MakeCacheTicket c [] = Inr (c1, t0)
    \<and> MakeCacheTicket c1 [t0] = Inr (c2, t1)
    \<and> MakeCacheTicket c2 [t0, t1] = Inr (c3, t2)
    \<and> Cache_Set h c3 t0 v0 = Inr (h1, c4, p0)
    \<and> Cache_Set h1 c4 t1 v1 = Inr (h2, c5, p1)
    \<and> Cache_Set h2 c5 t2 v2 = Inr (h3, c6, p2)
    \<and> read_ticket h3 c6 t0 = Inr (Some v0)
    \<and> read_ticket h3 c6 t1 = Inr (Some v1)
    \<and> read_ticket h3 c6 t2 = Inr (Some v2)
    \<and> Cache_Invalidate c6 t1 = Inr c7
    \<and> read_ticket h3 c7 t0 = Inr (Some v0)
    \<and> read_ticket h3 c7 t1 = Inr None
    \<and> read_ticket h3 c7 t2 = Inr None
    \<and> Cache_Set h3 c7 t2 v = Inr (h4, c8, p3)
    \<and> read_ticket h4 c8 t1 = Inr None
    \<and> read_ticket h4 c8 t2 = Inr (Some v)
    \<and> Cache_Invalidate c8 t1 = Inr c9
    \<and> read_ticket h4 c9 t0 = Inr (Some v0)
    \<and> read_ticket h4 c9 t1 = Inr None
    \<and> read_ticket h4 c9 t2 = Inr None"
proof -
  let ?n = "length c"
  let ?t1 = "Suc ?n"
  let ?t2 = "Suc (Suc ?n)"
  let ?e0 = "empty_entry\<lparr>dependents := [?t2, ?t1]\<rparr>"
  let ?e1 = "empty_entry\<lparr>dependents := [?t2]\<rparr>"
  let ?c1 = "c @ [empty_entry]"
  let ?c2 = "c @ [empty_entry\<lparr>dependents := [?t1]\<rparr>, empty_entry]"
  let ?c3 = "c @ [?e0, ?e1, empty_entry]"
  let ?b = "brk h"
  let ?h1 = "alloc h (Some v0)"
  let ?h2 = "alloc ?h1 (Some v1)"
  let ?h3 = "alloc ?h2 (Some v2)"
  let ?f0 = "?e0\<lparr>value_ptr := Some ?b, is_valid := True\<rparr>"
  let ?f1 = "?e1\<lparr>value_ptr := Some (Suc ?b), is_valid := True\<rparr>"
  let ?f2 = "empty_entry\<lparr>value_ptr := Some (Suc (Suc ?b)), is_valid := True\<rparr>"
  let ?c4 = "c @ [?f0, ?e1, empty_entry]"
  let ?c5 = "c @ [?f0, ?f1, empty_entry]"
  let ?c6 = "c @ [?f0, ?f1, ?f2]"
  let ?c7 = "c @ [?f0, ?f1\<lparr>is_valid := False\<rparr>, ?f2\<lparr>is_valid := False\<rparr>]"
  let ?h4 = "alloc (free ?h3 (Some (Suc (Suc ?b)))) (Some v)"
  let ?g2 = "?f2\<lparr>value_ptr := Some (Suc (Suc (Suc ?b))), is_valid := True\<rparr>"
  let ?c8 = "c @ [?f0, ?f1\<lparr>is_valid := False\<rparr>, ?g2]"
  let ?c9 = "c @ [?f0, ?f1\<lparr>is_valid := False\<rparr>, ?g2\<lparr>is_valid := False\<rparr>]"
  have m0: "MakeCacheTicket c [] = Inr (?c1, ?n)" by (rule MakeCacheTicket_no_prerequisites)
  have m1: "MakeCacheTicket ?c1 [?n] = Inr (?c2, ?t1)" by (rule MakeCacheTicket_second)
  have m2: "MakeCacheTicket ?c2 [?n, ?t1] = Inr (?c3, ?t2)" by (rule MakeCacheTicket_third)
  have s0: "Cache_Set h ?c3 ?n v0 = Inr (?h1, ?c4, ?b)"
    by (simp add: Cache_Set_def free_def empty_entry_def)
  have s1: "Cache_Set ?h1 ?c4 ?t1 v1 = Inr (?h2, ?c5, Suc ?b)"
    by (simp add: Cache_Set_def free_def empty_entry_def nth_append list_update_append alloc_def)
  have s2: "Cache_Set ?h2 ?c5 ?t2 v2 = Inr (?h3, ?c6, Suc (Suc ?b))"
    by (simp add: Cache_Set_def free_def empty_entry_def nth_append list_update_append alloc_def)
  have r6: "read_ticket ?h3 ?c6 ?n = Inr (Some v0)" "read_ticket ?h3 ?c6 ?t1 = Inr (Some v1)"
      "read_ticket ?h3 ?c6 ?t2 = Inr (Some v2)"
    by (simp_all add: read_ticket_def Cache_Get_def deref_def alloc_def nth_append)
  have i1: "Cache_Invalidate ?c6 ?t1 = Inr ?c7"
    by (rule Cache_Invalidate_middle) (simp_all add: empty_entry_def)
  have r7: "read_ticket ?h3 ?c7 ?n = Inr (Some v0)" "read_ticket ?h3 ?c7 ?t1 = Inr None"
      "read_ticket ?h3 ?c7 ?t2 = Inr None"
    by (simp_all add: read_ticket_def Cache_Get_def deref_def alloc_def nth_append)
  have s3: "Cache_Set ?h3 ?c7 ?t2 v = Inr (?h4, ?c8, Suc (Suc (Suc ?b)))"
    by (simp add: Cache_Set_def free_def empty_entry_def nth_append list_update_append alloc_def)
  have r8: "read_ticket ?h4 ?c8 ?t1 = Inr None" "read_ticket ?h4 ?c8 ?t2 = Inr (Some v)"
    by (simp_all add: read_ticket_def Cache_Get_def deref_def alloc_def free_def nth_append)
  have i2: "Cache_Invalidate ?c8 ?t1 = Inr ?c9"
    using Cache_Invalidate_middle[of "?f1\<lparr>is_valid := False\<rparr>" c ?g2 ?f0]
    by (simp add: empty_entry_def)
  have r9: "read_ticket ?h4 ?c9 ?n = Inr (Some v0)" "read_ticket ?h4 ?c9 ?t1 = Inr None"
      "read_ticket ?h4 ?c9 ?t2 = Inr None"
    by (simp_all add: read_ticket_def Cache_Get_def deref_def alloc_def free_def nth_append)
  show ?thesis
    apply (rule exI[of _ ?c1], rule exI[of _ ?n], rule exI[of _ ?c2], rule exI[of _ ?t1])
    apply (rule exI[of _ ?c3], rule exI[of _ ?t2])
    apply (rule exI[of _ ?h1], rule exI[of _ ?c4], rule exI[of _ ?b])
    apply (rule exI[of _ ?h2], rule exI[of _ ?c5], rule exI[of _ "Suc ?b"])
    apply (rule exI[of _ ?h3], rule exI[of _ ?c6], rule exI[of _ "Suc (Suc ?b)"])
    apply (rule exI[of _ ?c7])
    apply (rule exI[of _ ?h4], rule exI[of _ ?c8], rule exI[of _ "Suc (Suc (Suc ?b))"])
    apply (rule exI[of _ ?c9])
    apply (intro conjI)
    apply (rule m0 m1 m2 s0 s1 s2 r6 i1 r7 s3 r8 i2 r9)+
    done
qed

section \<open>Cache: invalidation keeps the stored values\<close>

text \<open>Two caches with the same tickets, the same stored objects and the same edges.\<close>

lemma InvalidateRecursively_storage:
  "length (InvalidateRecursively n c t) = length c
   \<and> map value_ptr (InvalidateRecursively n c t) = map value_ptr c
   \<and> map dependents (InvalidateRecursively n c t) = map dependents c"
proof (induction n c t rule: InvalidateRecursively.induct)
  case (1 n c t)
  let ?ds = "filter (\<lambda>d. t < d \<and> d < n) (dependents (c ! t))"
  let ?c0 = "c[t := (c ! t)\<lparr>is_valid := False\<rparr>]"
  have step: "\<And>d c'. d \<in> set ?ds \<Longrightarrow>
      length (InvalidateRecursively n c' d) = length c'
      \<and> map value_ptr (InvalidateRecursively n c' d) = map value_ptr c'
      \<and> map dependents (InvalidateRecursively n c' d) = map dependents c'"
    using "1.IH" by blast
  have fold: "\<And>c'. set ds \<subseteq> set ?ds \<Longrightarrow>
      length (fold (\<lambda>d c'. InvalidateRecursively n c' d) ds c') = length c'
      \<and> map value_ptr (fold (\<lambda>d c'. InvalidateRecursively n c' d) ds c') = map value_ptr c'
      \<and> map dependents (fold (\<lambda>d c'. InvalidateRecursively n c' d) ds c') = map dependents c'"
    for ds
  proof (induction ds)
    case Nil
    show ?case by simp
  next
    case (Cons d ds)
    from Cons.prems have d: "d \<in> set ?ds" and ds: "set ds \<subseteq> set ?ds" by simp_all
    from step[OF d, of c'] Cons.IH[OF ds, of "InvalidateRecursively n c' d"]
    show ?case by simp
  qed
  have base: "length ?c0 = length c \<and> map value_ptr ?c0 = map value_ptr c
      \<and> map dependents ?c0 = map dependents c"
    by (cases "t < length c") (simp_all add: map_update list_update_same_conv list_update_beyond)
  from fold[of ?ds ?c0] base
  show ?case unfolding InvalidateRecursively.simps[of n c t] by simp
qed

lemma Cache_Invalidate_storage:
  assumes "Cache_Invalidate c t = Inr c'"
  shows "length c' = length c" "map value_ptr c' = map value_ptr c"
    "map dependents c' = map dependents c"
  using assms InvalidateRecursively_storage[of "length c" c t]
  by (auto simp: Cache_Invalidate_def split: if_splits)

lemma InvalidateRecursively_below:
  "i < t \<Longrightarrow> InvalidateRecursively n c t ! i = c ! i"
proof (induction n c t rule: InvalidateRecursively.induct)
  case (1 n c t)
  let ?ds = "filter (\<lambda>d. t < d \<and> d < n) (dependents (c ! t))"
  have fold: "\<And>c'. set ds \<subseteq> set ?ds \<Longrightarrow>
      fold (\<lambda>d c'. InvalidateRecursively n c' d) ds c' ! i = c' ! i" for ds
  proof (induction ds)
    case Nil
    show ?case by simp
  next
    case (Cons d ds)
    from Cons.prems have d: "d \<in> set ?ds" and ds: "set ds \<subseteq> set ?ds" by simp_all
    from d "1.prems" have "i < d" by simp
    from "1.IH"[OF d this, of c'] Cons.IH[OF ds, of "InvalidateRecursively n c' d"]
    show ?case by simp
  qed
  from fold[of ?ds "c[t := (c ! t)\<lparr>is_valid := False\<rparr>]"] "1.prems"
  show ?case unfolding InvalidateRecursively.simps[of n c t] by simp
qed

lemma InvalidateRecursively_marks:
  assumes "t < length c"
  shows "\<not> is_valid (InvalidateRecursively n c t ! t)"
proof -
  let ?ds = "filter (\<lambda>d. t < d \<and> d < n) (dependents (c ! t))"
  have fold: "\<And>c'. set ds \<subseteq> set ?ds \<Longrightarrow>
      fold (\<lambda>d c'. InvalidateRecursively n c' d) ds c' ! t = c' ! t" for ds
  proof (induction ds)
    case Nil
    show ?case by simp
  next
    case (Cons d ds)
    from Cons.prems have "t < d" and ds: "set ds \<subseteq> set ?ds" by simp_all
    from InvalidateRecursively_below[OF this(1), of n c']
      Cons.IH[OF ds, of "InvalidateRecursively n c' d"]
    show ?case by simp
  qed
  from fold[of ?ds "c[t := (c ! t)\<lparr>is_valid := False\<rparr>]"] assms
  show ?thesis unfolding InvalidateRecursively.simps[of n c t] by simp
qed

lemma Cache_Invalidate_absent:
  assumes "t < length c"
  shows "\<exists>c'. Cache_Invalidate c t = Inr c' \<and> Cache_Get c' t = Inr None"
  using assms InvalidateRecursively_marks[OF assms, of "length c"]
    InvalidateRecursively_storage[of "length c" c t]
  by (simp add: Cache_Invalidate_def Cache_Get_def)

lemma example_cache_built:
  "\<exists>c1 c2 c3 h1 c4 h2 c5.
      MakeCacheTicket [] [] = Inr (c1, 0)
    \<and> MakeCacheTicket c1 [0] = Inr (c2, 1)
    \<and> MakeCacheTicket c2 [0, 1] = Inr (c3, 2)
    \<and> Cache_Set \<lparr>cells = (\<lambda>a. None), brk = 0\<rparr> c3 0 0 = Inr (h1, c4, 0)
    \<and> Cache_Set h1 c4 1 1 = Inr (h2, c5, 1)
    \<and> Cache_Set h2 c5 2 2 = Inr (example_heap, example_cache, 2)"
  by (simp add: MakeCacheTicket_def add_dependent_def empty_entry_def Cache_Set_def free_def
      alloc_def example_heap_def example_cache_def numeral_2_eq_2 numeral_3_eq_3)

lemma owned_Nil: "owned [] = []"
  by (simp add: owned_def)

lemma owned_Cons:
  "owned (e # c) = (case value_ptr e of None \<Rightarrow> owned c | Some p \<Rightarrow> p # owned c)"
  by (cases "value_ptr e") (simp_all add: owned_def map_filter_simps)

lemma owned_member:
  "i < length c \<Longrightarrow> value_ptr (c ! i) = Some p \<Longrightarrow> p \<in> set (owned c)"
proof (induction c arbitrary: i)
  case Nil
  then show ?case by simp
next
  case (Cons e c)
  show ?case
  proof (cases i)
    case 0
    with Cons.prems show ?thesis by (simp add: owned_Cons)
  next
    case (Suc j)
    with Cons.prems have "p \<in> set (owned c)" using Cons.IH[of j] by simp
    then show ?thesis by (simp add: owned_Cons split: option.splits)
  qed
qed

lemma owned_distinct_nth:
  "distinct (owned c) \<Longrightarrow> i < length c \<Longrightarrow> j < length c \<Longrightarrow>
   value_ptr (c ! i) = Some p \<Longrightarrow> value_ptr (c ! j) = Some p \<Longrightarrow> i = j"
proof (induction c arbitrary: i j)
  case Nil
  then show ?case by simp
next
  case (Cons e c)
  show ?case
  proof (cases i)
    case i0: 0
    show ?thesis
    proof (cases j)
      case 0
      with i0 show ?thesis by simp
    next
      case (Suc j')
      with Cons.prems have "p \<in> set (owned c)" using owned_member[of j' c p] by simp
      moreover from i0 Cons.prems have "p \<notin> set (owned c)" by (simp add: owned_Cons)
      ultimately show ?thesis by simp
    qed
  next
    case iS: (Suc i')
    show ?thesis
    proof (cases j)
      case 0
      from iS Cons.prems have "p \<in> set (owned c)" using owned_member[of i' c p] by simp
      moreover from 0 Cons.prems have "p \<notin> set (owned c)" by (simp add: owned_Cons)
      ultimately show ?thesis by simp
    next
      case (Suc j')
      from Cons.prems have "distinct (owned c)" by (simp add: owned_Cons split: option.splits)
      from Cons.IH[OF this, of i' j'] iS Suc Cons.prems show ?thesis by simp
    qed
  qed
qed

lemma add_dependents_storage:
  "length (fold (\<lambda>p s. s[p := add_dependent n (s ! p)]) ps c) = length c
   \<and> map value_ptr (fold (\<lambda>p s. s[p := add_dependent n (s ! p)]) ps c) = map value_ptr c
   \<and> map is_valid (fold (\<lambda>p s. s[p := add_dependent n (s ! p)]) ps c) = map is_valid c"
proof (induction ps arbitrary: c)
  case Nil
  show ?case by simp
next
  case (Cons p ps)
  have "length (c[p := add_dependent n (c ! p)]) = length c
      \<and> map value_ptr (c[p := add_dependent n (c ! p)]) = map value_ptr c
      \<and> map is_valid (c[p := add_dependent n (c ! p)]) = map is_valid c"
    by (cases "p < length c")
       (simp_all add: map_update list_update_same_conv list_update_beyond add_dependent_def)
  with Cons.IH[of "c[p := add_dependent n (c ! p)]"] show ?case by simp
qed

lemma nth_value_ptr_eq:
  assumes "map value_ptr c' = map value_ptr c" "i < length c"
  shows "value_ptr (c' ! i) = value_ptr (c ! i)"
proof -
  from assms(1) have "length c' = length c" by (rule map_eq_imp_length_eq)
  with assms have "map value_ptr c' ! i = map value_ptr c ! i" "i < length c'" by simp_all
  with assms(2) show ?thesis by simp
qed

lemma borrow_intact_step:
  assumes i: "borrow_intact p v t (h, c)"
      and n: "\<not> is_set_of t x"
      and a: "apply_op x (h, c) = Inr (h', c')"
  shows "borrow_intact p v t (h', c')"
proof (cases x)
  case (MakeTicket ps)
  with a have h': "h' = h"
    and c': "c' = fold (\<lambda>p s. s[p := add_dependent (length c) (s ! p)]) ps c @ [empty_entry]"
    by (auto simp: MakeCacheTicket_def split: if_splits)
  let ?m = "fold (\<lambda>p s. s[p := add_dependent (length c) (s ! p)]) ps c"
  from add_dependents_storage[of "length c" ps c]
  have l: "length ?m = length c" and m: "map value_ptr ?m = map value_ptr c" by simp_all
  have "\<forall>t'<length c'. t' \<noteq> t \<longrightarrow> value_ptr (c' ! t') \<noteq> Some p"
  proof (intro allI impI)
    fix t' assume t': "t' < length c'" "t' \<noteq> t"
    show "value_ptr (c' ! t') \<noteq> Some p"
    proof (cases "t' < length c")
      case True
      with l c' have "c' ! t' = ?m ! t'" by (simp add: nth_append)
      with nth_value_ptr_eq[OF m True] i t' True show ?thesis
        by (simp add: borrow_intact_def)
    next
      case False
      with t' c' l have "c' ! t' = empty_entry" by (simp add: nth_append)
      then show ?thesis by (simp add: empty_entry_def)
    qed
  qed
  with i h' show ?thesis by (simp add: borrow_intact_def)
next
  case (SetValue t1 w)
  with n have ne: "t1 \<noteq> t" by simp
  from SetValue a have t1: "t1 < length c"
    and h': "h' = alloc (free h (value_ptr (c ! t1))) (Some w)"
    and c': "c' = c[t1 := (c ! t1)\<lparr>value_ptr := Some (brk (free h (value_ptr (c ! t1)))),
                                   is_valid := True\<rparr>]"
    by (auto simp: Cache_Set_def Let_def split: if_splits)
  from i t1 ne have np: "value_ptr (c ! t1) \<noteq> Some p" by (simp add: borrow_intact_def)
  have b: "brk (free h (value_ptr (c ! t1))) = brk h"
    by (simp add: free_def split: option.splits)
  from i have pb: "p < brk h" and d: "cells h p = Some v"
    by (simp_all add: borrow_intact_def deref_def)
  from np d have "cells (free h (value_ptr (c ! t1))) p = Some v"
    by (auto simp: free_def split: option.splits)
  with pb b h' have 1: "p < brk h'" "deref h' p = Some v"
    by (simp_all add: alloc_def deref_def)
  have "\<forall>t'<length c'. t' \<noteq> t \<longrightarrow> value_ptr (c' ! t') \<noteq> Some p"
    using i pb b c' t1 by (auto simp: borrow_intact_def nth_list_update)
  with 1 show ?thesis by (simp add: borrow_intact_def)
next
  case (SwapValue t1 w)
  with a have t1: "t1 < length c"
    and h': "h' = alloc h (Some w)"
    and c': "c' = c[t1 := (c ! t1)\<lparr>value_ptr := Some (brk h), is_valid := True\<rparr>]"
    by (auto simp: Cache_Swap_def split: if_splits)
  from i have pb: "p < brk h" and d: "cells h p = Some v"
    by (simp_all add: borrow_intact_def deref_def)
  with h' have 1: "p < brk h'" "deref h' p = Some v"
    by (simp_all add: alloc_def deref_def)
  have "\<forall>t'<length c'. t' \<noteq> t \<longrightarrow> value_ptr (c' ! t') \<noteq> Some p"
    using i pb c' t1 by (auto simp: borrow_intact_def nth_list_update)
  with 1 show ?thesis by (simp add: borrow_intact_def)
next
  case (GetValue t1)
  with a i show ?thesis by (auto split: sum.splits)
next
  case (Invalidate t1)
  with a have h': "h' = h" and inv: "Cache_Invalidate c t1 = Inr c'"
    by (auto split: sum.splits)
  from Cache_Invalidate_storage[OF inv]
  have l: "length c' = length c" and m: "map value_ptr c' = map value_ptr c" by simp_all
  have "\<forall>t'<length c'. t' \<noteq> t \<longrightarrow> value_ptr (c' ! t') \<noteq> Some p"
    using i l nth_value_ptr_eq[OF m] by (simp add: borrow_intact_def)
  with i h' show ?thesis by (simp add: borrow_intact_def)
qed

lemma borrow_intact_run:
  "borrow_intact p v t s \<Longrightarrow> list_all (\<lambda>x. \<not> is_set_of t x) ops \<Longrightarrow>
   run_ops ops s = Inr s' \<Longrightarrow> borrow_intact p v t s'"
proof (induction ops arbitrary: s)
  case Nil
  then show ?case by simp
next
  case (Cons x ops)
  from Cons.prems(3) obtain s1 where s1: "apply_op x s = Inr s1" "run_ops ops s1 = Inr s'"
    by (auto split: sum.splits)
  from Cons.prems(2) have n: "\<not> is_set_of t x" "list_all (\<lambda>x. \<not> is_set_of t x) ops"
    by simp_all
  from borrow_intact_step[of p v t "fst s" "snd s" x "fst s1" "snd s1"] Cons.prems(1) n(1) s1(1)
  have "borrow_intact p v t s1" by simp
  from Cons.IH[OF this n(2) s1(2)] show ?case .
qed

lemma borrow_intact_initially:
  assumes "owns h c" and "Cache_Get c t = Inr (Some p)" and "deref h p = Some v"
  shows "borrow_intact p v t (h, c)"
proof -
  from assms(2) have t: "t < length c" and vp: "value_ptr (c ! t) = Some p"
    by (auto simp: Cache_Get_def split: if_splits)
  from assms(1) have dist: "distinct (owned c)" and lt: "\<forall>q\<in>set (owned c). q < brk h"
    by (simp_all add: owns_def list_all_iff)
  from owned_member[OF t vp] lt have "p < brk h" by simp
  moreover have "\<forall>t'<length c. t' \<noteq> t \<longrightarrow> value_ptr (c ! t') \<noteq> Some p"
    using owned_distinct_nth[OF dist _ t _ vp] by blast
  ultimately show ?thesis using assms(3) by (simp add: borrow_intact_def)
qed

text \<open>
  C6. In a cache that owns its stored objects, let \<open>p\<close> be the borrow that \<^verbatim>\<open>get(t)\<close>
  returns and \<open>v\<close> the value it reads. Then \<^verbatim>\<open>invalidate(t)\<close> returns, \<^verbatim>\<open>get(t)\<close> is absent
  afterwards, and \<open>p\<close> still reads \<open>v\<close>; and \<open>p\<close> reads \<open>v\<close> after every sequence of cache
  operations that returns and holds no \<^verbatim>\<open>set\<close> of \<open>t\<close>, whether it starts before or after
  the invalidation.
\<close>

theorem borrow_survives_invalidation:
  assumes "owns h c" and "Cache_Get c t = Inr (Some p)" and "deref h p = Some v"
  shows "\<exists>c'. Cache_Invalidate c t = Inr c'
           \<and> Cache_Get c' t = Inr None
           \<and> deref h p = Some v
           \<and> (\<forall>ops h'' c''. list_all (\<lambda>x. \<not> is_set_of t x) ops
                  \<and> run_ops ops (h, c') = Inr (h'', c'') \<longrightarrow> deref h'' p = Some v)
           \<and> (\<forall>ops h'' c''. list_all (\<lambda>x. \<not> is_set_of t x) ops
                  \<and> run_ops ops (h, c) = Inr (h'', c'') \<longrightarrow> deref h'' p = Some v)"
proof -
  from assms(2) have t: "t < length c" by (auto simp: Cache_Get_def split: if_splits)
  from Cache_Invalidate_absent[OF t] obtain c' where
    c': "Cache_Invalidate c t = Inr c'" "Cache_Get c' t = Inr None" by blast
  have i: "borrow_intact p v t (h, c)" using assms by (rule borrow_intact_initially)
  have "apply_op (Invalidate t) (h, c) = Inr (h, c')" using c'(1) by simp
  from borrow_intact_step[OF i _ this] have i': "borrow_intact p v t (h, c')" by simp
  have r: "deref h'' p = Some v"
    if "list_all (\<lambda>x. \<not> is_set_of t x) ops" "run_ops ops (h, c0) = Inr (h'', c'')"
      "borrow_intact p v t (h, c0)" for ops h'' c'' c0
    using borrow_intact_run[OF that(3) that(1) that(2)] by (simp add: borrow_intact_def)
  from c' assms(3) r[OF _ _ i'] r[OF _ _ i] show ?thesis by blast
qed

theorem borrow_survives_invalidation_witness:
  "owns example_heap example_cache
   \<and> Cache_Get example_cache 1 = Inr (Some 1)
   \<and> deref example_heap 1 = Some 1
   \<and> (\<exists>c'. Cache_Invalidate example_cache 1 = Inr c' \<and> Cache_Get c' 1 = Inr None)
   \<and> (\<exists>h'' c''.
        run_ops [Invalidate 1, SetValue 2 76, Invalidate 1, SwapValue 1 5, SetValue 0 3,
                 MakeTicket [1]] (example_heap, example_cache) = Inr (h'', c'')
        \<and> deref h'' 1 = Some 1)"
proof -
  have o: "owns example_heap example_cache"
    by (simp add: owns_def owned_def map_filter_simps example_heap_def example_cache_def)
  have g: "Cache_Get example_cache 1 = Inr (Some 1)"
    by (simp add: Cache_Get_def example_cache_def)
  have d: "deref example_heap 1 = Some 1"
    by (simp add: deref_def example_heap_def)
  let ?ops = "[Invalidate 1, SetValue 2 76, Invalidate 1, SwapValue 1 5, SetValue 0 3,
                 MakeTicket [1]] :: int cache_op list"
  have n: "list_all (\<lambda>x. \<not> is_set_of 1 x) ?ops" by simp
  have e: "\<exists>h'' c''. run_ops ?ops (example_heap, example_cache) = Inr (h'', c'')"
    by (simp add: example_heap_def example_cache_def Invalidate_eval Cache_Set_def
        Cache_Swap_def MakeCacheTicket_def free_def alloc_def add_dependent_def)
  then obtain h'' c'' where r: "run_ops ?ops (example_heap, example_cache) = Inr (h'', c'')"
    by blast
  from borrow_survives_invalidation[OF o g d] n r
  have "(\<exists>c'. Cache_Invalidate example_cache 1 = Inr c' \<and> Cache_Get c' 1 = Inr None)"
    and "deref h'' 1 = Some 1"
    by blast+
  with o g d r show ?thesis by blast
qed

section \<open>Cache: clone independence\<close>

lemma owned_set: "set (owned c) = {p. \<exists>i<length c. value_ptr (c ! i) = Some p}"
proof -
  have "set (owned c) = {p. \<exists>e\<in>set c. value_ptr e = Some p}"
    by (induction c) (auto simp: owned_Nil owned_Cons split: option.splits)
  also have "\<dots> = {p. \<exists>i<length c. value_ptr (c ! i) = Some p}"
    by (metis (no_types, opaque_lifting) in_set_conv_nth)
  finally show ?thesis .
qed

lemma owned_value_ptr_cong:
  assumes "map value_ptr c' = map value_ptr c"
  shows "owned c' = owned c"
proof -
  have "owned c = map the (filter (\<lambda>x. x \<noteq> None) (map value_ptr c))" for c :: Cache
    by (simp add: owned_def map_filter_def filter_map comp_def)
  with assms show ?thesis by simp
qed

lemma owned_update:
  assumes "t < length c" "value_ptr e = Some q"
  shows "set (owned (c[t := e])) \<subseteq> insert q (set (owned c))"
  using assms by (auto simp: owned_set nth_list_update split: if_splits)

lemma observe_cong:
  assumes "\<forall>p\<in>set (owned c). cells h' p = cells h p"
  shows "observe h' c = observe h c"
proof -
  have "\<And>e. e \<in> set c \<Longrightarrow>
      (case value_ptr e of None \<Rightarrow> None | Some p \<Rightarrow> deref h' p)
      = (case value_ptr e of None \<Rightarrow> None | Some p \<Rightarrow> deref h p)"
  proof -
    fix e assume e: "e \<in> set c"
    show "(case value_ptr e of None \<Rightarrow> None | Some p \<Rightarrow> deref h' p)
      = (case value_ptr e of None \<Rightarrow> None | Some p \<Rightarrow> deref h p)"
    proof (cases "value_ptr e")
      case None
      then show ?thesis by simp
    next
      case (Some p)
      with e have "p \<in> set (owned c)" by (auto simp: owned_set in_set_conv_nth)
      with assms Some show ?thesis by (simp add: deref_def)
    qed
  qed
  then show ?thesis by (simp add: observe_def)
qed

lemma observe_storage_cong:
  assumes "map value_ptr c' = map value_ptr c" "map is_valid c' = map is_valid c"
    "map dependents c' = map dependents c"
  shows "observe h c' = observe h c"
proof -
  have "observe h c = map (\<lambda>(b, p, d). (b, (case p of None \<Rightarrow> None | Some q \<Rightarrow> deref h q), d))
      (zip (map is_valid c) (zip (map value_ptr c) (map dependents c)))" for c :: Cache
    by (induction c) (simp_all add: observe_def)
  with assms show ?thesis by simp
qed

lemma undisturbed_step:
  assumes u: "undisturbed a h0 (h, c)"
      and a: "apply_op x (h, c) = Inr (h', c')"
  shows "undisturbed a h0 (h', c')"
proof -
  from u have obs: "observe h a = observe h0 a"
    and lt: "\<forall>p\<in>set (owned a). p < brk h"
    and ap: "\<forall>p\<in>set (owned a). p \<notin> set (owned c)"
    by (simp_all add: undisturbed_def list_all_iff)
  have goal: "undisturbed a h0 (h', c')"
    if "\<forall>p\<in>set (owned a). cells h' p = cells h p" "brk h \<le> brk h'"
      "set (owned c') \<subseteq> insert (brk h) (set (owned c))"
  proof -
    from observe_cong[OF that(1)] obs have "observe h' a = observe h0 a" by simp
    moreover from lt that(2) have "\<forall>p\<in>set (owned a). p < brk h'" by auto
    moreover from lt ap that(3) have "\<forall>p\<in>set (owned a). p \<notin> set (owned c')" by auto
    ultimately show ?thesis by (simp add: undisturbed_def list_all_iff)
  qed
  show ?thesis
  proof (cases x)
    case (MakeTicket ps)
    with a have h': "h' = h"
      and c': "c' = fold (\<lambda>p s. s[p := add_dependent (length c) (s ! p)]) ps c @ [empty_entry]"
      by (auto simp: MakeCacheTicket_def split: if_splits)
    from add_dependents_storage[of "length c" ps c]
    have "map value_ptr c' = map value_ptr (c @ [empty_entry])" by (simp add: c')
    from owned_value_ptr_cong[OF this] have "set (owned c') = set (owned c)"
      by (simp add: owned_def map_filter_def empty_entry_def)
    with h' show ?thesis by (intro goal) auto
  next
    case (SetValue t w)
    with a have t: "t < length c"
      and h': "h' = alloc (free h (value_ptr (c ! t))) (Some w)"
      and c': "c' = c[t := (c ! t)\<lparr>value_ptr := Some (brk (free h (value_ptr (c ! t)))),
                                   is_valid := True\<rparr>]"
      by (auto simp: Cache_Set_def Let_def split: if_splits)
    have b: "brk (free h (value_ptr (c ! t))) = brk h"
      by (simp add: free_def split: option.splits)
    have "\<forall>p\<in>set (owned a). cells h' p = cells h p"
    proof
      fix p assume p: "p \<in> set (owned a)"
      with lt have "p \<noteq> brk h" by auto
      moreover from p ap t have "value_ptr (c ! t) \<noteq> Some p" by (auto simp: owned_set)
      ultimately show "cells h' p = cells h p"
        by (auto simp: h' alloc_def free_def b split: option.splits)
    qed
    moreover have "brk h \<le> brk h'" by (simp add: h' alloc_def b)
    moreover have "set (owned c') \<subseteq> insert (brk h) (set (owned c))"
      unfolding c' b by (rule owned_update[OF t]) simp
    ultimately show ?thesis by (rule goal)
  next
    case (SwapValue t w)
    with a have t: "t < length c"
      and h': "h' = alloc h (Some w)"
      and c': "c' = c[t := (c ! t)\<lparr>value_ptr := Some (brk h), is_valid := True\<rparr>]"
      by (auto simp: Cache_Swap_def split: if_splits)
    have "\<forall>p\<in>set (owned a). cells h' p = cells h p"
      using lt by (auto simp: h' alloc_def)
    moreover have "brk h \<le> brk h'" by (simp add: h' alloc_def)
    moreover have "set (owned c') \<subseteq> insert (brk h) (set (owned c))"
      unfolding c' by (rule owned_update[OF t]) simp
    ultimately show ?thesis by (rule goal)
  next
    case (GetValue t)
    with a u show ?thesis by (auto split: sum.splits)
  next
    case (Invalidate t)
    with a have h': "h' = h" and inv: "Cache_Invalidate c t = Inr c'"
      by (auto split: sum.splits)
    from owned_value_ptr_cong[OF Cache_Invalidate_storage(2)[OF inv]]
    have "set (owned c') = set (owned c)" by simp
    with h' show ?thesis by (intro goal) auto
  qed
qed

lemma undisturbed_run:
  "undisturbed a h0 s \<Longrightarrow> run_ops ops s = Inr s' \<Longrightarrow> undisturbed a h0 s'"
proof (induction ops arbitrary: s)
  case Nil
  then show ?case by simp
next
  case (Cons x ops)
  from Cons.prems(2) obtain s1 where s1: "apply_op x s = Inr s1" "run_ops ops s1 = Inr s'"
    by (auto split: sum.splits)
  from undisturbed_step[of a h0 "fst s" "snd s" x "fst s1" "snd s1"] Cons.prems(1) s1(1)
  have "undisturbed a h0 s1" by simp
  from Cons.IH[OF this s1(2)] show ?case .
qed

lemma Cache_Clone_fresh:
  assumes "\<forall>p\<in>set (owned es). p < brk h" "Cache_Clone h es = (h1, es1)"
  shows "brk h \<le> brk h1
       \<and> (\<forall>p<brk h. cells h1 p = cells h p)
       \<and> observe h1 es1 = observe h es
       \<and> (\<forall>q\<in>set (owned es1). brk h \<le> q \<and> q < brk h1)
       \<and> distinct (owned es1)"
  using assms
proof (induction es arbitrary: h h1 es1)
  case Nil
  then show ?case by (simp add: observe_def owned_Nil)
next
  case (Cons e es)
  show ?case
  proof (cases "value_ptr e")
    case None
    with Cons.prems(2) obtain es' where c: "Cache_Clone h es = (h1, es')" and e1: "es1 = e # es'"
      by (auto split: prod.splits)
    from Cons.prems(1) None have "\<forall>p\<in>set (owned es). p < brk h" by (simp add: owned_Cons)
    from Cons.IH[OF this c] None e1 show ?thesis
      by (simp add: owned_Cons observe_def)
  next
    case (Some p)
    let ?h0 = "alloc h (cells h p)"
    from Some Cons.prems(2) obtain es' where c: "Cache_Clone ?h0 es = (h1, es')"
      and e1: "es1 = e\<lparr>value_ptr := Some (brk h)\<rparr> # es'"
      by (auto split: prod.splits)
    from Cons.prems(1) Some have lt: "\<forall>q\<in>set (owned es). q < brk h" and p: "p < brk h"
      by (simp_all add: owned_Cons)
    from lt have "\<forall>q\<in>set (owned es). q < brk ?h0" by (auto simp: alloc_def)
    from Cons.IH[OF this c] have ih:
      "brk ?h0 \<le> brk h1" "\<forall>q<brk ?h0. cells h1 q = cells ?h0 q"
      "observe h1 es' = observe ?h0 es" "\<forall>q\<in>set (owned es'). brk ?h0 \<le> q \<and> q < brk h1"
      "distinct (owned es')"
      by simp_all
    have b0: "brk ?h0 = Suc (brk h)" by (simp add: alloc_def)
    have 1: "brk h \<le> brk h1" using ih(1) b0 by simp
    have 2: "\<forall>q<brk h. cells h1 q = cells h q"
      using ih(2) b0 by (simp add: alloc_def)
    have "cells h1 (brk h) = cells ?h0 (brk h)" using ih(2) b0 by simp
    then have hd: "deref h1 (brk h) = deref h p" by (simp add: deref_def alloc_def)
    have "observe ?h0 es = observe h es"
      by (rule observe_cong) (use lt in \<open>auto simp: alloc_def\<close>)
    with ih(3) hd Some e1 have 3: "observe h1 es1 = observe h (e # es)"
      by (simp add: observe_def)
    have 4: "\<forall>q\<in>set (owned es1). brk h \<le> q \<and> q < brk h1"
      using ih(1,4) b0 e1 by (auto simp: owned_Cons)
    have 5: "distinct (owned es1)"
      using ih(4,5) b0 e1 by (auto simp: owned_Cons)
    from 1 2 3 4 5 show ?thesis by simp
  qed
qed

text \<open>
  C5. For a cache that owns its stored objects, \<^verbatim>\<open>clone()\<close> gives a cache that shows
  the same tickets, the same validity, equal values and the same dependents, that owns
  objects of its own, and that leaves what the original shows as it was. Afterwards every
  sequence of cache operations on the clone that returns leaves what the original shows
  unchanged, and every such sequence on the original leaves what the clone shows
  unchanged.
\<close>

theorem Cache_Clone_independent:
  assumes "owns h c" and "Cache_Clone h c = (h1, c1)"
  shows "observe h1 c1 = observe h c
       \<and> observe h1 c = observe h c
       \<and> owns h1 c1
       \<and> (\<forall>ops h2 c2. run_ops ops (h1, c1) = Inr (h2, c2) \<longrightarrow> observe h2 c = observe h c)
       \<and> (\<forall>ops h2 c2. run_ops ops (h1, c) = Inr (h2, c2) \<longrightarrow> observe h2 c1 = observe h c)"
proof -
  from assms(1) have lt: "\<forall>p\<in>set (owned c). p < brk h"
    by (simp add: owns_def list_all_iff)
  from Cache_Clone_fresh[OF lt assms(2)] have f:
    "brk h \<le> brk h1" "\<forall>p<brk h. cells h1 p = cells h p"
    "observe h1 c1 = observe h c" "\<forall>q\<in>set (owned c1). brk h \<le> q \<and> q < brk h1"
    "distinct (owned c1)"
    by simp_all
  have o: "observe h1 c = observe h c"
    by (rule observe_cong) (use lt f(2) in auto)
  have own: "owns h1 c1" using f(4,5) by (simp add: owns_def list_all_iff)
  have u1: "undisturbed c h (h1, c1)"
    using o lt f(1,4) by (fastforce simp: undisturbed_def list_all_iff)
  have u2: "undisturbed c1 h1 (h1, c)"
    using lt f(4) by (fastforce simp: undisturbed_def list_all_iff)
  have r1: "observe h2 c = observe h c" if "run_ops ops (h1, c1) = Inr (h2, c2)" for ops h2 c2
    using undisturbed_run[OF u1 that] by (simp add: undisturbed_def)
  have r2: "observe h2 c1 = observe h c" if "run_ops ops (h1, c) = Inr (h2, c2)" for ops h2 c2
    using undisturbed_run[OF u2 that] f(3) by (simp add: undisturbed_def)
  from f(3) o own r1 r2 show ?thesis by blast
qed

theorem Cache_Clone_independent_witness:
  "owns example_heap example_cache
   \<and> (\<exists>h1 c1 h2 c2 h3 c3.
        Cache_Clone example_heap example_cache = (h1, c1)
      \<and> observe h1 c1 = observe example_heap example_cache
      \<and> read_ticket h1 c1 0 = Inr (Some 0)
      \<and> read_ticket h1 c1 1 = Inr (Some 1)
      \<and> read_ticket h1 c1 2 = Inr (Some 2)
      \<and> run_ops [Invalidate 0, SetValue 1 9] (h1, c1) = Inr (h2, c2)
      \<and> read_ticket h2 c2 0 = Inr None
      \<and> read_ticket h2 c2 2 = Inr None
      \<and> observe h2 example_cache = observe example_heap example_cache
      \<and> read_ticket h2 example_cache 0 = Inr (Some 0)
      \<and> read_ticket h2 example_cache 1 = Inr (Some 1)
      \<and> read_ticket h2 example_cache 2 = Inr (Some 2)
      \<and> run_ops [Invalidate 1, SetValue 0 5] (h1, example_cache) = Inr (h3, c3)
      \<and> observe h3 c1 = observe example_heap example_cache)"
proof -
  have o: "owns example_heap example_cache"
    by (simp add: owns_def owned_def map_filter_simps example_heap_def example_cache_def)
  let ?h1 = "alloc (alloc (alloc example_heap (Some 0)) (Some 1)) (Some 2)"
  let ?c1 = "[\<lparr>value_ptr = Some 3, is_valid = True, dependents = [2, 1]\<rparr>,
      \<lparr>value_ptr = Some 4, is_valid = True, dependents = [2]\<rparr>,
      \<lparr>value_ptr = Some 5, is_valid = True, dependents = []\<rparr>]"
  have c: "Cache_Clone example_heap example_cache = (?h1, ?c1)"
    by (simp add: example_heap_def example_cache_def alloc_def)
  have r1: "read_ticket ?h1 ?c1 0 = Inr (Some 0)" "read_ticket ?h1 ?c1 1 = Inr (Some 1)"
      "read_ticket ?h1 ?c1 2 = Inr (Some 2)"
    by (simp_all add: read_ticket_def Cache_Get_def deref_def alloc_def example_heap_def)
  have "\<exists>h2 c2. run_ops [Invalidate 0, SetValue 1 9] (?h1, ?c1) = Inr (h2, c2)
      \<and> read_ticket h2 c2 0 = Inr None \<and> read_ticket h2 c2 2 = Inr None
      \<and> read_ticket h2 example_cache 0 = Inr (Some 0)
      \<and> read_ticket h2 example_cache 1 = Inr (Some 1)
      \<and> read_ticket h2 example_cache 2 = Inr (Some 2)"
    by (simp add: example_heap_def example_cache_def Invalidate_eval Cache_Set_def
        free_def alloc_def read_ticket_def Cache_Get_def deref_def)
  then obtain h2 c2 where x: "run_ops [Invalidate 0, SetValue 1 9] (?h1, ?c1) = Inr (h2, c2)"
      "read_ticket h2 c2 0 = Inr None" "read_ticket h2 c2 2 = Inr None"
      "read_ticket h2 example_cache 0 = Inr (Some 0)"
      "read_ticket h2 example_cache 1 = Inr (Some 1)"
      "read_ticket h2 example_cache 2 = Inr (Some 2)"
    by blast
  have "\<exists>h3 c3. run_ops [Invalidate 1, SetValue 0 5] (?h1, example_cache) = Inr (h3, c3)"
    by (simp add: example_heap_def example_cache_def Invalidate_eval Cache_Set_def
        free_def alloc_def)
  then obtain h3 c3 where
    y: "run_ops [Invalidate 1, SetValue 0 5] (?h1, example_cache) = Inr (h3, c3)"
    by blast
  from Cache_Clone_independent[OF o c] x(1) y
  have "observe ?h1 ?c1 = observe example_heap example_cache"
    "observe h2 example_cache = observe example_heap example_cache"
    "observe h3 ?c1 = observe example_heap example_cache"
    by blast+
  with o c r1 x y show ?thesis by blast
qed

section \<open>PropagateInvalidOutputs\<close>

lemma example_computed_built:
  "\<exists>child b ins h p c.
      GetSubsystemContext example_wired 1 = Inr child
    \<and> child = LeafContext b ins
    \<and> Cache_Set \<lparr>cells = (\<lambda>a. None), brk = 0\<rparr> (cache b) 3 5 = Inr (h, c, p)
    \<and> p = 0
    \<and> GetSubsystemContext example_computed 1 = Inr (LeafContext (b\<lparr>cache := c\<rparr>) ins)"
  by (simp add: example_wired_def example_computed_def Cache_Set_def free_def alloc_def
      empty_entry_def)

text \<open>
  C3. In \<open>example_computed\<close> the wire from output (0, 0) to input (1, 0) is recorded,
  and ticket 3 of subsystem 1 depends on the ticket of its input port 0 and is valid
  (invalidating that input port would make it absent). \<^verbatim>\<open>PropagateInvalidOutputs(0, 0)\<close>
  leaves the diagram context as it is: ticket 3 of subsystem 1 is still valid.
\<close>

theorem PropagateInvalidOutputs_invalidates_nothing:
  "consumers_of (diagram example_computed) (0, 0) = [(1, 0)]
   \<and> source_of (diagram example_computed) (1, 0) = Some (0, 0)
   \<and> (\<exists>child. GetSubsystemContext example_computed 1 = Inr child
         \<and> input_tickets (data child) = [2]
         \<and> dependents (cache (data child) ! 2) = [3]
         \<and> Cache_Get (cache (data child)) 3 = Inr (Some 0)
         \<and> (\<exists>b. InvalidateInputPort (data child) 0 = Inr b \<and> Cache_Get (cache b) 3 = Inr None))
   \<and> PropagateInvalidOutputs example_computed 0 0 = example_computed
   \<and> (\<exists>child. GetSubsystemContext (PropagateInvalidOutputs example_computed 0 0) 1 = Inr child
         \<and> Cache_Get (cache (data child)) 3 = Inr (Some 0))"
  by (simp add: example_computed_def consumers_of_def source_of_def Cache_Get_def
      InvalidateInputPort_def Invalidate_eval empty_entry_def)

section \<open>Cloning a diagram context\<close>

lemma example_exported_built:
  "\<exists>d. ExportInput example_wired (0, 0) = Returned d
      \<and> ExportOutput d (1, 0) = Returned example_exported"
  by (simp add: example_wired_def example_exported_def)

text \<open>
  C4. \<open>example_exported\<close> has one exported input and one exported output. Its clone has
  both subsystems installed and their output sets copied, the connection replayed (the
  dependent input port of subsystem 1 refers to the output slot of the clone, at address
  101, not to that of the original, at address 100) and the exported input replayed; but
  it has no exported output: \<^verbatim>\<open>get_num_output_ports\<close> is 0 for the clone and 1 for the
  original.
\<close>

theorem DoClone_drops_exported_outputs:
  "get_num_input_ports example_exported = 1
   \<and> get_num_output_ports example_exported = 1
   \<and> (\<exists>h' clone c0 c1.
         Clone (\<lambda>p. None) example_empty_heap example_exported = Inr (h', clone)
       \<and> num_subsystems clone = 2
       \<and> this_ptr (diagram clone) = 101
       \<and> GetSubsystemContext clone 0 = Inr c0 \<and> parent (data c0) = Some (101, 0)
       \<and> GetSubsystemContext clone 1 = Inr c1 \<and> parent (data c1) = Some (101, 1)
       \<and> c1 = LeafContext (data c1) [Some (DependentInputPort (OutputPortPtr 101 0 0))]
       \<and> GetSubsystemOutput clone 0 = Inr [7, 8]
       \<and> GetSubsystemOutput clone 1 = Inr [9]
       \<and> dependency_graph (diagram clone) = dependency_graph (diagram example_exported)
       \<and> inverse_dependency_graph (diagram clone)
            = inverse_dependency_graph (diagram example_exported)
       \<and> input_ids (diagram clone) = input_ids (diagram example_exported)
       \<and> get_num_input_ports clone = 1
       \<and> output_ids (diagram clone) = []
       \<and> get_num_output_ports clone = 0)"
  by (simp add: example_exported_def example_empty_heap_def DiagramContext_init_def
      BuildCacheTickets_def output_slots_def alloc_def Let_def get_num_ports_def
      GetMutableSubsystemContext_def InvalidateInputPort_def Invalidate_eval empty_entry_def
      numeral_2_eq_2)

text \<open>
  None of the steps of \<^verbatim>\<open>DoClone\<close> exports an output, so the clone of every diagram
  context is without exported outputs, whatever the original exports.
\<close>

lemma AddSystem_no_exported_outputs:
  "no_exported_outputs d \<Longrightarrow> AddSystem d i c out = Returned d' \<Longrightarrow> no_exported_outputs d'"
  by (cases d) (auto split: if_splits)

lemma MakeState_no_exported_outputs:
  "no_exported_outputs d \<Longrightarrow> MakeState d = Returned d' \<Longrightarrow> no_exported_outputs d'"
  by (cases d) (auto split: if_splits)

lemma Connect_no_exported_outputs:
  "no_exported_outputs d \<Longrightarrow> Connect d src dest = Returned d' \<Longrightarrow> no_exported_outputs d'"
  by (cases d) (auto simp: Let_def split: if_splits sum.splits)

lemma ExportInput_no_exported_outputs:
  "no_exported_outputs d \<Longrightarrow> ExportInput d port_id = Returned d' \<Longrightarrow> no_exported_outputs d'"
  by (cases d) (auto simp: Let_def split: if_splits)

lemma ConnectAll_no_exported_outputs:
  "no_exported_outputs d \<Longrightarrow> ConnectAll d g = Returned d' \<Longrightarrow> no_exported_outputs d'"
proof (induction g arbitrary: d)
  case Nil
  then show ?case by simp
next
  case (Cons connection g)
  from Cons.prems(2) obtain d1 where d1: "Connect d (snd connection) (fst connection) = Returned d1"
    "ConnectAll d1 g = Returned d'"
    by (auto simp: Let_def split: outcome.splits)
  from Connect_no_exported_outputs[OF Cons.prems(1) d1(1)] Cons.IH d1(2) show ?case by blast
qed

lemma ExportInputs_no_exported_outputs:
  "no_exported_outputs d \<Longrightarrow> ExportInputs d ids = Returned d' \<Longrightarrow> no_exported_outputs d'"
proof (induction ids arbitrary: d)
  case Nil
  then show ?case by simp
next
  case (Cons port_id ids)
  from Cons.prems(2) obtain d1 where d1: "ExportInput d port_id = Returned d1"
    "ExportInputs d1 ids = Returned d'"
    by (auto split: outcome.splits)
  from ExportInput_no_exported_outputs[OF Cons.prems(1) d1(1)] Cons.IH d1(2) show ?case by blast
qed

lemma CloneSubsystems_no_exported_outputs:
  "no_exported_outputs clone \<Longrightarrow> CloneSubsystems env f h clone i cs = Inr (h', clone') \<Longrightarrow>
   no_exported_outputs clone'"
proof (induction cs arbitrary: h clone i)
  case Nil
  then show ?case by simp
next
  case (Cons c cs)
  from Cons.prems(2) obtain child out h1 child' clone1 where
    "c = Some child" "AddSystem clone i child' out = Returned clone1"
    "CloneSubsystems env f h1 clone1 (i + 1) cs = Inr (h', clone')"
    by (cases c) (auto split: if_splits option.splits sum.splits outcome.splits)
  with AddSystem_no_exported_outputs[OF Cons.prems(1)] Cons.IH show ?case by blast
qed

lemma Clone_no_exported_outputs:
  fixes clone :: "('t::zero, 'v) Context"
  assumes "Clone env h (DiagramContext b f cs) = Inr (h', clone)"
  shows "no_exported_outputs clone"
proof -
  have init: "no_exported_outputs (DiagramContext_init (brk h) (length cs) :: ('t, 'v) Context)"
    by (simp add: DiagramContext_init_def)
  from assms obtain h1 clone1 clone2 clone3 where
    s: "CloneSubsystems (output_slots f env) f (alloc h None)
          (DiagramContext_init (brk h) (length cs)) 0 cs = Inr (h1, clone1)"
       "MakeState clone1 = Returned clone2"
       "ConnectAll clone2 (dependency_graph f) = Returned clone3"
       "ExportInputs clone3 (input_ids f) = Returned clone"
    by (auto split: sum.splits outcome.splits)
  from CloneSubsystems_no_exported_outputs[OF init s(1)] have "no_exported_outputs clone1" .
  from MakeState_no_exported_outputs[OF this s(2)] have "no_exported_outputs clone2" .
  from ConnectAll_no_exported_outputs[OF this s(3)] have "no_exported_outputs clone3" .
  from ExportInputs_no_exported_outputs[OF this s(4)] show ?thesis .
qed

section \<open>Cache: the ticket graph and the soundness of invalidation\<close>

lemma forward_edges_iff:
  "forward_edges c = (\<forall>t<length c. \<forall>d\<in>set (dependents (c ! t)). t < d \<and> d < length c)"
  by (simp only: forward_edges_def list_all_iff set_upt Ball_def atLeastLessThan_iff le0
      simp_thms)

lemma forward_edgesD:
  "forward_edges c \<Longrightarrow> t < length c \<Longrightarrow> d \<in> set (dependents (c ! t)) \<Longrightarrow>
   t < d \<and> d < length c"
  unfolding forward_edges_iff by blast

lemma forward_edgesI:
  "(\<And>t d. t < length c \<Longrightarrow> d \<in> set (dependents (c ! t)) \<Longrightarrow> t < d \<and> d < length c) \<Longrightarrow>
   forward_edges c"
  unfolding forward_edges_iff by blast

lemma forward_edges_empty: "forward_edges []"
  by (simp add: forward_edges_def)

lemma add_dependents_edges:
  assumes "i < length c"
  shows "set (dependents (fold (\<lambda>p s. s[p := add_dependent n (s ! p)]) ps c ! i))
           \<subseteq> insert n (set (dependents (c ! i)))"
  using assms
proof (induction ps arbitrary: c)
  case Nil
  show ?case by auto
next
  case (Cons p ps)
  let ?c = "c[p := add_dependent n (c ! p)]"
  from Cons.prems have l: "i < length ?c" by simp
  have "set (dependents (?c ! i)) \<subseteq> insert n (set (dependents (c ! i)))"
    using Cons.prems by (cases "p < length c") (auto simp: nth_list_update add_dependent_def)
  with Cons.IH[OF l] show ?case by auto
qed

text \<open>Every cache built by \<^verbatim>\<open>make_ticket\<close> keeps the invariant.\<close>

lemma MakeCacheTicket_forward_edges:
  assumes "forward_edges c" "MakeCacheTicket c ps = Inr (c', t)"
  shows "forward_edges c' \<and> t = length c \<and> length c' = Suc (length c)"
proof -
  let ?m = "fold (\<lambda>p s. s[p := add_dependent (length c) (s ! p)]) ps c"
  from assms(2) have c': "c' = ?m @ [empty_entry]" and t: "t = length c"
    by (auto simp: MakeCacheTicket_def split: if_splits)
  from add_dependents_storage[of "length c" ps c] have l: "length ?m = length c" by simp
  from c' l have lc': "length c' = Suc (length c)" by simp
  have "forward_edges c'"
  proof (rule forward_edgesI)
    fix i d assume i: "i < length c'" and d: "d \<in> set (dependents (c' ! i))"
    show "i < d \<and> d < length c'"
    proof (cases "i < length c")
      case True
      from True l have "c' ! i = ?m ! i" unfolding c' by (simp add: nth_append)
      with d have "d \<in> set (dependents (?m ! i))" by simp
      with add_dependents_edges[OF True, of "length c" ps]
      have "d = length c \<or> d \<in> set (dependents (c ! i))" by blast
      then show ?thesis
      proof
        assume "d = length c"
        with True lc' show ?thesis by simp
      next
        assume "d \<in> set (dependents (c ! i))"
        from forward_edgesD[OF assms(1) True this] lc' show ?thesis by simp
      qed
    next
      case False
      with i lc' have "i = length ?m" using l by simp
      then have "c' ! i = empty_entry" unfolding c' by simp
      with d show ?thesis by (simp add: empty_entry_def)
    qed
  qed
  with t lc' show ?thesis by simp
qed

text \<open>Under the invariant \<open>InvalidateRecursively\<close> follows every edge.\<close>

lemma forward_edges_all_followed:
  assumes "forward_edges c" "t < length c"
  shows "filter (\<lambda>d. t < d \<and> d < length c) (dependents (c ! t)) = dependents (c ! t)"
  unfolding filter_id_conv using forward_edgesD[OF assms] by blast

lemma reaches_cong:
  assumes "map dependents c' = map dependents c" "forward_edges c" "t < length c"
    "reaches c t t'"
  shows "reaches c' t t' \<and> t' < length c"
  using assms(4,3)
proof (induction rule: reaches.induct)
  case (reaches_self t)
  then show ?case by (simp add: reaches.reaches_self)
next
  case (reaches_step d t t')
  from forward_edgesD[OF assms(2) reaches_step.prems reaches_step.hyps(1)]
  have d: "d < length c" by simp
  from assms(1) have "length c' = length c" by (rule map_eq_imp_length_eq)
  with assms(1) reaches_step.prems have "map dependents c' ! t = map dependents c ! t"
    "t < length c'" by simp_all
  with reaches_step.prems have "dependents (c' ! t) = dependents (c ! t)" by simp
  with reaches_step.hyps(1) have e: "d \<in> set (dependents (c' ! t))" by simp
  from reaches_step.IH[OF d] have r: "reaches c' d t'" and tl: "t' < length c" by simp_all
  from reaches.reaches_step[OF e r] tl show ?case by simp
qed

lemma InvalidateEach_storage:
  "length (InvalidateEach n ds c) = length c
   \<and> map value_ptr (InvalidateEach n ds c) = map value_ptr c
   \<and> map dependents (InvalidateEach n ds c) = map dependents c"
proof (induction ds arbitrary: c)
  case Nil
  show ?case by (simp add: InvalidateEach_Nil)
next
  case (Cons d ds)
  from Cons.IH[of "InvalidateRecursively n c d"] InvalidateRecursively_storage[of n c d]
  show ?case by (simp add: InvalidateEach_Cons)
qed

lemma InvalidateRecursively_stays_invalid:
  "i < length c \<Longrightarrow> \<not> is_valid (c ! i) \<Longrightarrow> \<not> is_valid (InvalidateRecursively n c t ! i)"
proof (induction n c t rule: InvalidateRecursively.induct)
  case (1 n c t)
  let ?ds = "filter (\<lambda>d. t < d \<and> d < n) (dependents (c ! t))"
  let ?c0 = "c[t := (c ! t)\<lparr>is_valid := False\<rparr>]"
  have fold: "\<And>c'. set ds \<subseteq> set ?ds \<Longrightarrow> i < length c' \<Longrightarrow> \<not> is_valid (c' ! i) \<Longrightarrow>
      \<not> is_valid (fold (\<lambda>d c'. InvalidateRecursively n c' d) ds c' ! i)" for ds
  proof (induction ds)
    case Nil
    then show ?case by simp
  next
    case (Cons d ds)
    from Cons.prems(1) have d: "d \<in> set ?ds" and ds: "set ds \<subseteq> set ?ds" by simp_all
    have l: "i < length (InvalidateRecursively n c' d)"
      using Cons.prems(2) InvalidateRecursively_storage[of n c' d] by simp
    from "1.IH"[OF d Cons.prems(2,3)] Cons.IH[OF ds l] show ?case by simp
  qed
  have l0: "i < length ?c0" using "1.prems" by simp
  have v0: "\<not> is_valid (?c0 ! i)"
  proof (cases "t < length c")
    case True
    with "1.prems" show ?thesis by (cases "t = i") (simp_all add: nth_list_update)
  next
    case False
    with "1.prems" show ?thesis by (simp add: list_update_beyond)
  qed
  from fold[OF subset_refl l0 v0] show ?case
    unfolding InvalidateRecursively.simps[of n c t] by simp
qed

lemma InvalidateEach_stays_invalid:
  "i < length c \<Longrightarrow> \<not> is_valid (c ! i) \<Longrightarrow> \<not> is_valid (InvalidateEach n ds c ! i)"
proof (induction ds arbitrary: c)
  case Nil
  then show ?case by (simp add: InvalidateEach_Nil)
next
  case (Cons d ds)
  have l: "i < length (InvalidateRecursively n c d)"
    using Cons.prems(1) InvalidateRecursively_storage[of n c d] by simp
  from Cons.IH[OF l InvalidateRecursively_stays_invalid[OF Cons.prems]]
  show ?case by (simp add: InvalidateEach_Cons)
qed

lemma InvalidateRecursively_reaches:
  "n = length c \<Longrightarrow> forward_edges c \<Longrightarrow> t < length c \<Longrightarrow> reaches c t t' \<Longrightarrow>
   \<not> is_valid (InvalidateRecursively n c t ! t')"
proof (induction n c t rule: InvalidateRecursively.induct)
  case (1 n c t)
  let ?ds = "filter (\<lambda>d. t < d \<and> d < n) (dependents (c ! t))"
  let ?c0 = "c[t := (c ! t)\<lparr>is_valid := False\<rparr>]"
  have unf: "InvalidateRecursively n c t = InvalidateEach n ?ds ?c0"
    by (rule InvalidateRecursively_unfold)
  from "1.prems"(4) show ?case
  proof (cases rule: reaches.cases)
    case reaches_self
    with "1.prems"(3) show ?thesis by (simp add: InvalidateRecursively_marks)
  next
    case (reaches_step d)
    from forward_edgesD[OF "1.prems"(2,3) reaches_step(1)] "1.prems"(1)
    have dr: "t < d" "d < n" by simp_all
    with reaches_step(1) have "d \<in> set ?ds" by simp
    then obtain xs ys where sp: "?ds = xs @ d # ys" by (meson split_list)
    let ?c1 = "InvalidateEach n xs ?c0"
    have st0: "length ?c0 = length c" "map dependents ?c0 = map dependents c"
      using "1.prems"(3) by (simp_all add: map_update list_update_same_conv)
    from InvalidateEach_storage[of n xs ?c0] st0
    have st1: "length ?c1 = length c" "map dependents ?c1 = map dependents c" by simp_all
    have fe1: "forward_edges ?c1"
    proof (rule forward_edgesI)
      fix i e assume i: "i < length ?c1" and e: "e \<in> set (dependents (?c1 ! i))"
      from i st1(1) have ic: "i < length c" by simp
      from st1(2) have "map dependents ?c1 ! i = map dependents c ! i" by simp
      with i ic have "dependents (?c1 ! i) = dependents (c ! i)" by simp
      with e forward_edgesD[OF "1.prems"(2) ic, of e] st1(1)
      show "i < e \<and> e < length ?c1" by simp
    qed
    from dr "1.prems"(1) have dl: "d < length c" by simp
    from reaches_cong[OF st1(2) "1.prems"(2) dl reaches_step(2)]
    have r1: "reaches ?c1 d t'" and t'l: "t' < length c" by simp_all
    have "\<not> is_valid (InvalidateRecursively n ?c1 d ! t')"
      using "1.IH"[OF \<open>d \<in> set ?ds\<close>, of ?c1] "1.prems"(1) st1(1) fe1 dl r1 by simp
    moreover have "t' < length (InvalidateRecursively n ?c1 d)"
      using InvalidateRecursively_storage[of n ?c1 d] st1(1) t'l by simp
    ultimately have "\<not> is_valid (InvalidateEach n ys (InvalidateRecursively n ?c1 d) ! t')"
      by (rule InvalidateEach_stays_invalid[rotated])
    moreover have "InvalidateEach n ?ds ?c0 = InvalidateEach n ys (InvalidateRecursively n ?c1 d)"
      unfolding sp by (simp add: InvalidateEach_def)
    ultimately show ?thesis by (simp add: unf)
  qed
qed

text \<open>
  Invalidation soundness: in a cache with the invariant, after \<^verbatim>\<open>invalidate(t)\<close>
  \<^verbatim>\<open>get(t')\<close> is absent for every \<open>t'\<close> reachable from \<open>t\<close>, whatever the validity of the
  entries on the way was.
\<close>

lemma Cache_Invalidate_sound:
  assumes "forward_edges c" "t < length c" "reaches c t t'"
  shows "\<exists>c'. Cache_Invalidate c t = Inr c' \<and> Cache_Get c' t' = Inr None"
proof -
  from reaches_cong[OF refl assms] have "t' < length c" by simp
  with InvalidateRecursively_reaches[OF refl assms]
    InvalidateRecursively_storage[of "length c" c t] assms(2)
  show ?thesis by (simp add: Cache_Invalidate_def Cache_Get_def)
qed

text \<open>
  Every operation of the cache keeps the invariant, so every cache that the operations
  build from the empty cache has it.
\<close>

lemma forward_edges_cong:
  assumes "map dependents c' = map dependents c" "forward_edges c"
  shows "forward_edges c'"
proof (rule forward_edgesI)
  fix t d assume t: "t < length c'" and d: "d \<in> set (dependents (c' ! t))"
  from assms(1) have l: "length c' = length c" by (rule map_eq_imp_length_eq)
  from assms(1) have "map dependents c' ! t = map dependents c ! t" by simp
  with t l have "dependents (c' ! t) = dependents (c ! t)" by simp
  with d t l forward_edgesD[OF assms(2), of t d] show "t < d \<and> d < length c'" by simp
qed

lemma apply_op_forward_edges:
  assumes f: "forward_edges c" and a: "apply_op x (h, c) = Inr (h', c')"
  shows "forward_edges c'"
proof (cases x)
  case (MakeTicket ps)
  with a obtain t where "MakeCacheTicket c ps = Inr (c', t)" by (auto split: sum.splits)
  from MakeCacheTicket_forward_edges[OF f this] show ?thesis by simp
next
  case (SetValue t w)
  with a have "t < length c"
    and "c' = c[t := (c ! t)\<lparr>value_ptr := Some (brk (free h (value_ptr (c ! t)))),
                               is_valid := True\<rparr>]"
    by (auto simp: Cache_Set_def Let_def split: if_splits)
  then have "map dependents c' = map dependents c"
    by (simp add: map_update list_update_same_conv)
  from forward_edges_cong[OF this f] show ?thesis .
next
  case (SwapValue t w)
  with a have "t < length c"
    and "c' = c[t := (c ! t)\<lparr>value_ptr := Some (brk h), is_valid := True\<rparr>]"
    by (auto simp: Cache_Swap_def split: if_splits)
  then have "map dependents c' = map dependents c"
    by (simp add: map_update list_update_same_conv)
  from forward_edges_cong[OF this f] show ?thesis .
next
  case (GetValue t)
  with a f show ?thesis by (auto split: sum.splits)
next
  case (Invalidate t)
  with a have "Cache_Invalidate c t = Inr c'" by (auto split: sum.splits)
  from forward_edges_cong[OF Cache_Invalidate_storage(3)[OF this] f] show ?thesis .
qed

lemma run_ops_forward_edges:
  "forward_edges (snd s) \<Longrightarrow> run_ops ops s = Inr s' \<Longrightarrow> forward_edges (snd s')"
proof (induction ops arbitrary: s)
  case Nil
  then show ?case by simp
next
  case (Cons x ops)
  from Cons.prems(2) obtain s1 where s1: "apply_op x s = Inr s1" "run_ops ops s1 = Inr s'"
    by (auto split: sum.splits)
  from apply_op_forward_edges[of "snd s" x "fst s" "fst s1" "snd s1"] Cons.prems(1) s1(1)
  have "forward_edges (snd s1)" by simp
  from Cons.IH[OF this s1(2)] show ?case .
qed

lemma Cache_Clone_storage:
  "Cache_Clone h c = (h1, c1) \<Longrightarrow>
   map dependents c1 = map dependents c \<and> map is_valid c1 = map is_valid c"
proof (induction c arbitrary: h h1 c1)
  case Nil
  then show ?case by simp
next
  case (Cons e es)
  show ?case
  proof (cases "value_ptr e")
    case None
    with Cons.prems obtain es' where "Cache_Clone h es = (h1, es')" "c1 = e # es'"
      by (auto split: prod.splits)
    with Cons.IH show ?thesis by auto
  next
    case (Some p)
    with Cons.prems obtain es' where "Cache_Clone (alloc h (cells h p)) es = (h1, es')"
      "c1 = e\<lparr>value_ptr := Some (brk h)\<rparr> # es'"
      by (auto split: prod.splits)
    with Cons.IH show ?thesis by auto
  qed
qed

lemma Cache_Clone_forward_edges:
  "forward_edges c \<Longrightarrow> Cache_Clone h c = (h1, c1) \<Longrightarrow> forward_edges c1"
  using Cache_Clone_storage forward_edges_cong by blast

end
